theory Spec2Isabelle
  imports Complex_Main "HOL-Library.Word"
begin

unbundle bit_operations_syntax

section \<open>The BOBJ chunk decoder of \<open>frontend/src/game/Model.ts\<close>\<close>

text \<open>
  The development embeds \<open>loadBOBJ\<close> and its inner functions \<open>readChunks\<close>,
  \<open>readChunk\<close> and \<open>appendChunks\<close>. Conventions:
  \<^item> a \<open>Uint8Array\<close> chunk is a list of bytes; the \<open>DataView\<close> over its buffer is the
    same list (the chunk is taken to span its whole buffer, as the merged chunk built by
    \<open>appendChunks\<close> always does);
  \<^item> JavaScript numbers that hold sizes, counts and positions are natural numbers; the
    source keeps \<open>readIndex \<le> chunkSize\<close>, so \<open>chunkSize - readIndex\<close> is never negative;
  \<^item> a float read by \<open>getFloat32\<close> or \<open>getFloat64\<close> is represented by its IEEE-754
    bit pattern, a \<open>32 word\<close> or a \<open>64 word\<close>;
  \<^item> the quotients \<open>vertexCount\<close> and \<open>triangleCount\<close> are exact rationals (the
    source holds the nearest double);
  \<^item> a \<open>DataView\<close> access outside the buffer throws \<open>RangeError\<close>; an exception thrown
    inside the promise chain rejects the promise of \<open>loadBOBJ\<close>.
\<close>

subsection \<open>Data\<close>

type_synonym byte = "8 word"

datatype ModelReadState =
  IndexSize | VertexComponents | ScaleFactor | ModelOffset | VertexCount | IndexCount
  | VertexData | IndexData | Done

datatype error = RangeError | LoadFailed

datatype IndexArray =
  Uint8Array "8 word list" | Uint16Array "16 word list" | Uint32Array "32 word list"

datatype GLenum = UNSIGNED_BYTE | UNSIGNED_SHORT | UNSIGNED_INT

text \<open>
  The closure variables of \<open>loadBOBJ\<close> together with \<open>trailingChunkData\<close> of
  \<open>readChunks\<close>. The source declares \<open>indexSize\<close>, the three flags, \<open>vertexCount\<close>,
  \<open>vertexBufferSize\<close>, \<open>vertices\<close>, \<open>triangleCount\<close>, \<open>indexCount\<close> and \<open>indices\<close>
  without an initial value; \<open>appendChunks\<close> reads none of them before the header stage
  that assigns it, and \<open>initial\<close> gives them placeholders.
\<close>

record decoder =
  readState :: ModelReadState
  indexSize :: nat
  hasColor :: bool
  hasUV :: bool
  hasNormal :: bool
  scale :: "64 word"
  offset :: "32 word list"
  vertexCount :: rat
  vertexBufferSize :: nat
  vertices :: "32 word list"
  vertexWriteIndex :: nat
  triangleCount :: rat
  indexCount :: nat
  indices :: IndexArray
  indicesWriteIndex :: nat
  trailingChunkData :: "byte list option"

text \<open>\<open>scale = 1.0\<close> has the bit pattern \<open>0x3FF0000000000000\<close>; \<open>vec3.create()\<close> is three zeros.\<close>

definition initial :: decoder where
  "initial = \<lparr> readState = IndexSize, indexSize = 0, hasColor = False, hasUV = False,
     hasNormal = False, scale = 0x3FF0000000000000, offset = [0, 0, 0], vertexCount = 0,
     vertexBufferSize = 0, vertices = [], vertexWriteIndex = 0, triangleCount = 0,
     indexCount = 0, indices = Uint32Array [], indicesWriteIndex = 0,
     trailingChunkData = None \<rparr>"

subsection \<open>DataView reads\<close>

fun le_nat :: "byte list \<Rightarrow> nat" where
  "le_nat [] = 0"
| "le_nat (b # bs) = unat b + 256 * le_nat bs"

definition getUint :: "nat \<Rightarrow> byte list \<Rightarrow> nat \<Rightarrow> error + nat" where
  "getUint n view i =
     (if i + n \<le> length view then Inr (le_nat (take n (drop i view))) else Inl RangeError)"

definition getUint8 :: "byte list \<Rightarrow> nat \<Rightarrow> error + nat" where
  "getUint8 = getUint 1"

definition getUint16 :: "byte list \<Rightarrow> nat \<Rightarrow> error + nat" where
  "getUint16 = getUint 2"

definition getUint32 :: "byte list \<Rightarrow> nat \<Rightarrow> error + nat" where
  "getUint32 = getUint 4"

definition getFloat32 :: "byte list \<Rightarrow> nat \<Rightarrow> error + 32 word" where
  "getFloat32 view i = map_sum id word_of_nat (getUint 4 view i)"

definition getFloat64 :: "byte list \<Rightarrow> nat \<Rightarrow> error + 64 word" where
  "getFloat64 view i = map_sum id word_of_nat (getUint 8 view i)"

text \<open>Sequencing of a step that may throw.\<close>

definition bind_e :: "error + 'a \<Rightarrow> ('a \<Rightarrow> error + 'b) \<Rightarrow> error + 'b" where
  "bind_e m f = (case m of Inl e \<Rightarrow> Inl e | Inr x \<Rightarrow> f x)"

text \<open>\<open>indices[i] = index\<close>: a typed array converts the number to its element type and
  ignores a write outside its length.\<close>

fun setIndex :: "IndexArray \<Rightarrow> nat \<Rightarrow> nat \<Rightarrow> IndexArray" where
  "setIndex (Uint8Array xs) i v = Uint8Array (xs[i := word_of_nat v])"
| "setIndex (Uint16Array xs) i v = Uint16Array (xs[i := word_of_nat v])"
| "setIndex (Uint32Array xs) i v = Uint32Array (xs[i := word_of_nat v])"

fun elements :: "IndexArray \<Rightarrow> nat list" where
  "elements (Uint8Array xs) = map unat xs"
| "elements (Uint16Array xs) = map unat xs"
| "elements (Uint32Array xs) = map unat xs"

text \<open>The \<open>&\<close> of JavaScript works on 32-bit integers.\<close>

definition maskBit :: "nat \<Rightarrow> 32 word \<Rightarrow> bool" where
  "maskBit componentMask m = ((word_of_nat componentMask :: 32 word) AND m \<noteq> 0)"

subsection \<open>The header stages of \<open>appendChunks\<close>\<close>

text \<open>Each stage takes and returns the closure variables and \<open>readIndex\<close>; \<open>view\<close> is
  the merged chunk and \<open>length view\<close> is \<open>chunkSize\<close>.\<close>

definition stageIndexSize :: "byte list \<Rightarrow> decoder \<times> nat \<Rightarrow> error + decoder \<times> nat" where
  "stageIndexSize view = (\<lambda>(d, readIndex).
     if readState d = IndexSize \<and> 1 \<le> length view then
       bind_e (getUint8 view 0) (\<lambda>x.
         Inr (d\<lparr>readState := VertexComponents, indexSize := x\<rparr>, readIndex + 1))
     else Inr (d, readIndex))"

definition stageVertexComponents :: "byte list \<Rightarrow> decoder \<times> nat \<Rightarrow> error + decoder \<times> nat" where
  "stageVertexComponents view = (\<lambda>(d, readIndex).
     if readState d = VertexComponents \<and> 1 \<le> length view then
       bind_e (getUint8 view readIndex) (\<lambda>componentMask.
         Inr (d\<lparr>readState := ScaleFactor,
                 hasColor := maskBit componentMask 0x4,
                 hasNormal := maskBit componentMask 0x2,
                 hasUV := maskBit componentMask 0x1\<rparr>, readIndex + 1))
     else Inr (d, readIndex))"

definition stageScaleFactor :: "byte list \<Rightarrow> decoder \<times> nat \<Rightarrow> error + decoder \<times> nat" where
  "stageScaleFactor view = (\<lambda>(d, readIndex).
     if readState d = ScaleFactor \<and> 8 \<le> length view - readIndex then
       bind_e (getFloat64 view readIndex) (\<lambda>x.
         Inr (d\<lparr>readState := ModelOffset, scale := x\<rparr>, readIndex + 8))
     else Inr (d, readIndex))"

definition stageModelOffset :: "byte list \<Rightarrow> decoder \<times> nat \<Rightarrow> error + decoder \<times> nat" where
  "stageModelOffset view = (\<lambda>(d, readIndex).
     if readState d = ModelOffset \<and> 12 \<le> length view - readIndex then
       bind_e (getFloat32 view readIndex) (\<lambda>x.
       bind_e (getFloat32 view (readIndex + 4)) (\<lambda>y.
       bind_e (getFloat32 view (readIndex + 8)) (\<lambda>z.
         Inr (d\<lparr>readState := VertexCount, offset := [x, y, z]\<rparr>, readIndex + 12))))
     else Inr (d, readIndex))"

definition stride :: "decoder \<Rightarrow> nat" where
  "stride d = (if hasUV d \<and> hasNormal d then 4 else if hasUV d \<or> hasNormal d then 3 else 2)"

definition stageVertexCount :: "byte list \<Rightarrow> decoder \<times> nat \<Rightarrow> error + decoder \<times> nat" where
  "stageVertexCount view = (\<lambda>(d, readIndex).
     if readState d = VertexCount \<and> 4 \<le> length view - readIndex then
       bind_e (getUint32 view readIndex) (\<lambda>n.
         Inr (d\<lparr>readState := IndexCount,
                 vertexBufferSize := n,
                 vertexCount := of_nat n / of_nat (stride d),
                 vertices := replicate n 0\<rparr>, readIndex + 4))
     else Inr (d, readIndex))"

definition newIndices :: "nat \<Rightarrow> nat \<Rightarrow> IndexArray" where
  "newIndices w n =
     (if w = 1 then Uint8Array (replicate n 0)
      else if w = 2 then Uint16Array (replicate n 0)
      else Uint32Array (replicate n 0))"

definition stageIndexCount :: "byte list \<Rightarrow> decoder \<times> nat \<Rightarrow> error + decoder \<times> nat" where
  "stageIndexCount view = (\<lambda>(d, readIndex).
     if readState d = IndexCount \<and> 4 \<le> length view - readIndex then
       bind_e (getUint32 view readIndex) (\<lambda>n.
         Inr (d\<lparr>readState := VertexData,
                 indexCount := n,
                 triangleCount := of_nat n / 3,
                 indices := newIndices (indexSize d) n\<rparr>, readIndex + 4))
     else Inr (d, readIndex))"

text \<open>Lines 170 to 237: the six header stages in order.\<close>

definition readHeader :: "byte list \<Rightarrow> decoder \<times> nat \<Rightarrow> error + decoder \<times> nat" where
  "readHeader view s =
     bind_e (stageIndexSize view s) (\<lambda>s.
     bind_e (stageVertexComponents view s) (\<lambda>s.
     bind_e (stageScaleFactor view s) (\<lambda>s.
     bind_e (stageModelOffset view s) (\<lambda>s.
     bind_e (stageVertexCount view s) (stageIndexCount view)))))"

subsection \<open>The payload loops\<close>

text \<open>Lines 238 to 251. The test that ends the vertex stage sits inside the loop body,
  so it runs only while at least four bytes remain.\<close>

function readVertexData :: "byte list \<Rightarrow> decoder \<times> nat \<Rightarrow> error + decoder \<times> nat" where
  "readVertexData view (d, readIndex) =
     (if readState d = VertexData \<and> 4 \<le> length view - readIndex then
        if vertexBufferSize d \<le> vertexWriteIndex d then Inr (d\<lparr>readState := IndexData\<rparr>, readIndex)
        else bind_e (getUint32 view readIndex) (\<lambda>vertex.
          readVertexData view
            (d\<lparr>vertices := (vertices d)[vertexWriteIndex d := word_of_nat vertex],
               vertexWriteIndex := vertexWriteIndex d + 1\<rparr>, readIndex + 4))
      else Inr (d, readIndex))"
  by pat_completeness auto
termination
  by (relation "measure (\<lambda>(view, d, readIndex). length view - readIndex)") auto

text \<open>Lines 252 to 280. The \<open>default\<close> branch reads four bytes whatever \<open>indexSize\<close> is,
  and \<open>readIndex\<close> advances by \<open>indexSize\<close>.\<close>

definition getIndex :: "nat \<Rightarrow> byte list \<Rightarrow> nat \<Rightarrow> error + nat" where
  "getIndex w view i =
     (if w = 1 then getUint8 view i else if w = 2 then getUint16 view i
      else getUint32 view i)"

definition putIndex :: "decoder \<Rightarrow> nat \<Rightarrow> decoder" where
  "putIndex d index =
     (let d1 = d\<lparr>indices := setIndex (indices d) (indicesWriteIndex d) index,
                 indicesWriteIndex := indicesWriteIndex d + 1\<rparr>
      in if indexCount d1 \<le> indicesWriteIndex d1 then d1\<lparr>readState := Done\<rparr> else d1)"

function readIndexData :: "byte list \<Rightarrow> decoder \<times> nat \<Rightarrow> error + decoder \<times> nat" where
  "readIndexData view (d, readIndex) =
     (if readState d = IndexData \<and> indexSize d \<le> length view - readIndex
         \<and> indicesWriteIndex d < indexCount d then
        bind_e (getIndex (indexSize d) view readIndex) (\<lambda>index.
          readIndexData view (putIndex d index, readIndex + indexSize d))
      else Inr (d, readIndex))"
  by pat_completeness auto
termination
  by (relation "measure (\<lambda>(view, d, readIndex). indexCount d - indicesWriteIndex d)")
     (auto simp: putIndex_def Let_def)

subsection \<open>\<open>appendChunks\<close>, \<open>readChunk\<close> and \<open>loadBOBJ\<close>\<close>

text \<open>Lines 159 to 165: a carry that is present and not empty is put in front of the
  chunk and the variable is cleared.\<close>

definition mergeTrailing :: "decoder \<Rightarrow> byte list \<Rightarrow> decoder \<times> byte list" where
  "mergeTrailing d v =
     (case trailingChunkData d of
        None \<Rightarrow> (d, v)
      | Some t \<Rightarrow> if 0 < length t then (d\<lparr>trailingChunkData := None\<rparr>, t @ v) else (d, v))"

text \<open>Lines 282 to 284.\<close>

definition storeTrailing :: "byte list \<Rightarrow> decoder \<times> nat \<Rightarrow> decoder" where
  "storeTrailing view = (\<lambda>(d, readIndex).
     if readIndex < length view then d\<lparr>trailingChunkData := Some (drop readIndex view)\<rparr>
     else d)"

text \<open>Lines 159 to 285: the body of \<open>appendChunks\<close> for a chunk that is present.\<close>

definition processChunk :: "decoder \<Rightarrow> byte list \<Rightarrow> error + decoder" where
  "processChunk d v =
     (case mergeTrailing d v of (d0, view) \<Rightarrow>
        bind_e (readHeader view (d0, 0)) (\<lambda>s.
        bind_e (readVertexData view s) (\<lambda>s.
        bind_e (readIndexData view s) (\<lambda>s.
          Inr (storeTrailing view s)))))"

text \<open>
  The reader is the list of chunks it will still deliver: \<open>reader.read()\<close> yields
  \<open>{done: false, value: v}\<close> for each and \<open>{done: true, value: undefined}\<close> afterwards.
  \<open>readChunk\<close> issues one read and hands the result to \<open>appendChunks\<close>. \<open>appendChunks\<close>
  returns at once when \<open>done\<close> holds or no value is present (line 156); otherwise it
  processes the chunk and calls \<open>readChunk\<close> again (line 286), whatever \<open>readState\<close> is;
  an exception thrown while processing ends the run. The second component of the result
  lists the \<open>readState\<close> at each \<open>reader.read()\<close> call, in order.
\<close>

definition logRead :: "decoder \<Rightarrow> (error + decoder) \<times> ModelReadState list
    \<Rightarrow> (error + decoder) \<times> ModelReadState list" where
  "logRead d = (\<lambda>(r, reads). (r, readState d # reads))"

function readChunk :: "decoder \<Rightarrow> byte list list \<Rightarrow> (error + decoder) \<times> ModelReadState list"
  and appendChunks :: "decoder \<Rightarrow> bool \<times> byte list option \<Rightarrow> byte list list
    \<Rightarrow> (error + decoder) \<times> ModelReadState list" where
  "readChunk d [] = logRead d (appendChunks d (True, None) [])"
| "readChunk d (v # reader) = logRead d (appendChunks d (False, Some v) reader)"
| "appendChunks d (True, value) reader = (Inr d, [])"
| "appendChunks d (False, None) reader = (Inr d, [])"
| "appendChunks d (False, Some v) reader =
     (case processChunk d v of
        Inl e \<Rightarrow> (Inl e, [])
      | Inr d' \<Rightarrow> readChunk d' reader)"
  by pat_completeness auto
termination
  by (relation "measure (\<lambda>x. case x of
        Inl (d, reader) \<Rightarrow> 2 * length reader + 1
      | Inr (d, (dn, value), reader) \<Rightarrow> if dn then 0 else 2 * length reader + 2)")
     auto

record Response =
  ok :: bool
  body :: "byte list list option"

text \<open>The value \<open>loadBOBJ\<close> resolves with; \<open>vao\<close> stands for the two buffers uploaded
  with \<open>gl.bufferData\<close>.\<close>

record ModelData =
  vao :: "32 word list \<times> IndexArray"
  m_vertexCount :: rat
  m_indexType :: GLenum
  m_indexCount :: nat
  m_triangleCount :: rat
  m_scale :: "64 word"
  m_offset :: "32 word list"
  m_hasColor :: bool
  m_hasUV :: bool
  m_hasNormal :: bool

definition resolveWith :: "decoder \<Rightarrow> ModelData" where
  "resolveWith d = \<lparr> vao = (vertices d, indices d), m_vertexCount = vertexCount d,
     m_indexType = (if indexSize d = 1 then UNSIGNED_BYTE
                    else if indexSize d = 2 then UNSIGNED_SHORT else UNSIGNED_INT),
     m_indexCount = indexCount d, m_triangleCount = triangleCount d, m_scale = scale d,
     m_offset = offset d, m_hasColor = hasColor d, m_hasUV = hasUV d,
     m_hasNormal = hasNormal d \<rparr>"

text \<open>\<open>readChunks\<close> throws when the response is not ok or has no body (lines 142 to 146),
  and otherwise starts reading; \<open>loadBOBJ\<close> rejects when the chain threw and resolves with
  the model otherwise.\<close>

definition readChunks :: "decoder \<Rightarrow> Response \<Rightarrow> error + decoder" where
  "readChunks d response =
     (case body response of
        None \<Rightarrow> Inl LoadFailed
      | Some reader \<Rightarrow>
          if \<not> ok response then Inl LoadFailed else fst (readChunk d reader))"

definition loadBOBJ :: "Response \<Rightarrow> error + ModelData" where
  "loadBOBJ response = map_sum id resolveWith (readChunks initial response)"

subsection \<open>Notions used to state the properties\<close>

text \<open>The bytes held between chunks.\<close>

definition carryBytes :: "decoder \<Rightarrow> byte list" where
  "carryBytes d = (case trailingChunkData d of None \<Rightarrow> [] | Some t \<Rightarrow> t)"

text \<open>The byte width of the field a decode state waits for, after the wire format; no
  field is pending in state \<open>Done\<close>.\<close>

definition pendingWidth :: "decoder \<Rightarrow> nat option" where
  "pendingWidth d =
     (case readState d of
        IndexSize \<Rightarrow> Some 1 | VertexComponents \<Rightarrow> Some 1 | ScaleFactor \<Rightarrow> Some 8
      | ModelOffset \<Rightarrow> Some 12 | VertexCount \<Rightarrow> Some 4 | IndexCount \<Rightarrow> Some 4
      | VertexData \<Rightarrow> Some 4 | IndexData \<Rightarrow> Some (indexSize d) | Done \<Rightarrow> None)"

definition carryBelowPending :: "decoder \<Rightarrow> bool" where
  "carryBelowPending d =
     (case pendingWidth d of None \<Rightarrow> True | Some w \<Rightarrow> length (carryBytes d) < w)"

text \<open>The stream bytes a decoder has decoded: the header bytes in front of the field its
  decode state waits for, four for each vertex word written and \<open>indexSize\<close> for each
  index written.\<close>

fun headerBytes :: "ModelReadState \<Rightarrow> nat" where
  "headerBytes IndexSize = 0"
| "headerBytes VertexComponents = 1"
| "headerBytes ScaleFactor = 2"
| "headerBytes ModelOffset = 10"
| "headerBytes VertexCount = 22"
| "headerBytes IndexCount = 26"
| "headerBytes VertexData = 30"
| "headerBytes IndexData = 30"
| "headerBytes Done = 30"

definition consumed :: "decoder \<Rightarrow> nat" where
  "consumed d = headerBytes (readState d) + 4 * vertexWriteIndex d
     + indexSize d * indicesWriteIndex d"

text \<open>No stage of a pass can fire at this point of the view: the guard of the stage that
  belongs to \<open>readState\<close> fails.\<close>

definition stuck :: "byte list \<Rightarrow> decoder \<times> nat \<Rightarrow> bool" where
  "stuck view = (\<lambda>(d, readIndex).
     case readState d of
       IndexSize \<Rightarrow> length view < 1
     | VertexComponents \<Rightarrow> length view < 1
     | ScaleFactor \<Rightarrow> length view - readIndex < 8
     | ModelOffset \<Rightarrow> length view - readIndex < 12
     | VertexCount \<Rightarrow> length view - readIndex < 4
     | IndexCount \<Rightarrow> length view - readIndex < 4
     | VertexData \<Rightarrow> length view - readIndex < 4
     | IndexData \<Rightarrow>
         \<not> (indexSize d \<le> length view - readIndex \<and> indicesWriteIndex d < indexCount d)
     | Done \<Rightarrow> True)"

fun rank :: "ModelReadState \<Rightarrow> nat" where
  "rank IndexSize = 0"
| "rank VertexComponents = 1"
| "rank ScaleFactor = 2"
| "rank ModelOffset = 3"
| "rank VertexCount = 4"
| "rank IndexCount = 5"
| "rank VertexData = 6"
| "rank IndexData = 7"
| "rank Done = 8"

text \<open>A point of a pass at which every stage before the \<open>k\<close>-th has either fired or can
  no longer fire.\<close>

definition settledUpTo :: "nat \<Rightarrow> byte list \<Rightarrow> decoder \<times> nat \<Rightarrow> bool" where
  "settledUpTo k view = (\<lambda>(d, readIndex).
     readIndex \<le> length view \<and> (k \<le> rank (readState d) \<or> stuck view (d, readIndex)))"

text \<open>The buffers are allocated at their declared sizes once their count is read, and
  every slot at or beyond the write index is still zero.\<close>

definition partialBuffers :: "decoder \<Rightarrow> bool" where
  "partialBuffers d =
     ((rank (readState d) < 5 \<longrightarrow> vertexWriteIndex d = 0)
      \<and> (rank (readState d) < 7 \<longrightarrow> indicesWriteIndex d = 0)
      \<and> (5 \<le> rank (readState d) \<longrightarrow>
           length (vertices d) = vertexBufferSize d
           \<and> drop (vertexWriteIndex d) (vertices d)
               = replicate (vertexBufferSize d - vertexWriteIndex d) 0)
      \<and> (6 \<le> rank (readState d) \<longrightarrow>
           length (elements (indices d)) = indexCount d
           \<and> drop (indicesWriteIndex d) (elements (indices d))
               = replicate (indexCount d - indicesWriteIndex d) 0)
      \<and> (readState d = IndexData \<longrightarrow> indicesWriteIndex d < indexCount d \<or> indexCount d = 0))"

text \<open>A decoder past the header of a mesh that declares no vertex words and no indices.\<close>

definition emptyMesh :: "decoder \<Rightarrow> bool" where
  "emptyMesh d =
     ((readState d = VertexData \<or> readState d = IndexData)
      \<and> vertexBufferSize d = 0 \<and> indexCount d = 0 \<and> vertices d = []
      \<and> elements (indices d) = [] \<and> vertexWriteIndex d = 0 \<and> indicesWriteIndex d = 0)"

text \<open>The header fields of the decoder.\<close>

definition headerFields ::
  "decoder \<Rightarrow> nat \<times> bool \<times> bool \<times> bool \<times> 64 word \<times> 32 word list \<times> nat \<times> rat \<times> nat \<times> rat" where
  "headerFields d = (indexSize d, hasUV d, hasNormal d, hasColor d, scale d, offset d,
     vertexBufferSize d, vertexCount d, indexCount d, triangleCount d)"

subsection \<open>A pass as a sequence of stages\<close>

text \<open>The eight stages of a pass in order; the \<open>k\<close>-th can fire only in the decode state of
  rank \<open>k\<close>. \<open>shiftBy r\<close> moves a point of a pass \<open>r\<close> bytes on.\<close>

type_synonym stage = "decoder \<times> nat \<Rightarrow> error + decoder \<times> nat"

fun seqE :: "('a \<Rightarrow> error + 'a) list \<Rightarrow> 'a \<Rightarrow> error + 'a" where
  "seqE [] x = Inr x"
| "seqE (f # fs) x = bind_e (f x) (seqE fs)"

definition passStages :: "byte list \<Rightarrow> stage list" where
  "passStages view = [stageIndexSize view, stageVertexComponents view, stageScaleFactor view,
     stageModelOffset view, stageVertexCount view, stageIndexCount view,
     readVertexData view, readIndexData view]"

definition rk :: "decoder \<times> nat \<Rightarrow> nat" where
  "rk s = rank (readState (fst s))"

definition shiftBy :: "nat \<Rightarrow> decoder \<times> nat \<Rightarrow> decoder \<times> nat" where
  "shiftBy r = (\<lambda>(d, i). (d, i + r))"

text \<open>A point of a pass past the first two header bytes, with an index width for which
  the index stage reads inside the bytes its guard has checked.\<close>

definition widthOk :: "decoder \<times> nat \<Rightarrow> bool" where
  "widthOk s = (2 \<le> rk s \<and> (indexSize (fst s) = 1 \<or> indexSize (fst s) = 2 \<or> 4 \<le> indexSize (fst s)))"

subsection \<open>Concrete streams\<close>

text \<open>A 30-byte header with index width \<open>w\<close>, component bitmask \<open>m\<close>, scale 1.5
  (\<open>0x3FF8000000000000\<close>), offset (0, 0, 0), \<open>nv\<close> vertex words and \<open>ni\<close> indices.\<close>

definition header :: "byte \<Rightarrow> byte \<Rightarrow> byte \<Rightarrow> byte \<Rightarrow> byte list" where
  "header w m nv ni =
     [w, m, 0, 0, 0, 0, 0, 0, 0xF8, 0x3F, 0, 0, 0, 0, 0, 0, 0, 0, 0, 0, 0, 0,
      nv, 0, 0, 0, ni, 0, 0, 0]"

text \<open>The 57-byte scenario: width 1, bitmask 1, six vertex words 1 to 6, indices 0, 1, 0.\<close>

definition stream57 :: "byte list" where
  "stream57 = header 1 1 6 3 @
     [1, 0, 0, 0, 2, 0, 0, 0, 3, 0, 0, 0, 4, 0, 0, 0, 5, 0, 0, 0, 6, 0, 0, 0, 0, 1, 0]"

text \<open>A valid 52-byte stream: width 2, bitmask 3, four vertex words, three indices.\<close>

definition stream52 :: "byte list" where
  "stream52 = header 2 3 4 3 @
     [1, 0, 0, 0, 2, 0, 0, 0, 3, 0, 0, 0, 4, 0, 0, 0, 0, 0, 1, 0, 2, 1]"

text \<open>The decoder after the first 35 bytes of \<open>stream57\<close> (header, one vertex word, one
  byte of the next), and after five more bytes.\<close>

definition after35 :: decoder where
  "after35 = \<lparr> readState = VertexData, indexSize = 1, hasColor = False, hasUV = True,
     hasNormal = False, scale = 0x3FF8000000000000, offset = [0, 0, 0], vertexCount = 2,
     vertexBufferSize = 6, vertices = [1, 0, 0, 0, 0, 0], vertexWriteIndex = 1,
     triangleCount = 1, indexCount = 3, indices = Uint8Array [0, 0, 0],
     indicesWriteIndex = 0, trailingChunkData = Some [2] \<rparr>"

definition after40 :: decoder where
  "after40 = after35 \<lparr> vertices := [1, 2, 0, 0, 0, 0], vertexWriteIndex := 2,
     trailingChunkData := Some [3, 0] \<rparr>"

text \<open>A valid 34-byte stream (width 1, no vertex words, four indices) and the decoder
  after it.\<close>

definition stream34 :: "byte list" where
  "stream34 = header 1 0 0 4 @ [7, 8, 9, 10]"

definition after34 :: decoder where
  "after34 = \<lparr> readState = Done, indexSize = 1, hasColor = False, hasUV = False,
     hasNormal = False, scale = 0x3FF8000000000000, offset = [0, 0, 0], vertexCount = 0,
     vertexBufferSize = 0, vertices = [], vertexWriteIndex = 0, triangleCount = 4 / 3,
     indexCount = 4, indices = Uint8Array [7, 8, 9, 10], indicesWriteIndex = 4,
     trailingChunkData = None \<rparr>"

section \<open>Properties\<close>

subsection \<open>Evaluation of concrete runs\<close>

lemma readChunk_Nil [simp]: "readChunk d [] = (Inr d, [readState d])"
  by (simp add: logRead_def)

lemma readChunk_Cons [simp]:
  "readChunk d (v # reader) =
     (case processChunk d v of
        Inl e \<Rightarrow> (Inl e, [readState d])
      | Inr d' \<Rightarrow> (case readChunk d' reader of (r, reads) \<Rightarrow> (r, readState d # reads)))"
  by (simp add: logRead_def split: sum.split)

declare readChunk.simps [simp del]

lemma replicate_numeral [simp]: "replicate (numeral k) x = x # replicate (pred_numeral k) x"
  by (simp add: numeral_eq_Suc)

lemmas run_defs = processChunk_def mergeTrailing_def storeTrailing_def readHeader_def
  stageIndexSize_def stageVertexComponents_def stageScaleFactor_def stageModelOffset_def
  stageVertexCount_def stageIndexCount_def bind_e_def getUint_def getUint8_def getUint16_def
  getUint32_def getFloat32_def getFloat64_def maskBit_def stride_def newIndices_def
  getIndex_def putIndex_def Let_def initial_def header_def loadBOBJ_def readChunks_def
  resolveWith_def
  readVertexData.simps readIndexData.simps

subsection \<open>Where a pass stops\<close>

text \<open>After the stages up to the \<open>k\<close>-th, the point reached is settled up to \<open>k\<close>; after
  the whole pass no stage can fire any more.\<close>

lemma bind_e_Inr [simp]: "bind_e (Inr x) f = f x"
  by (simp add: bind_e_def)

lemma bind_e_Inl [simp]: "bind_e (Inl e) f = Inl e"
  by (simp add: bind_e_def)

lemma bind_e_eq_Inr: "(bind_e m f = Inr y) = (\<exists>x. m = Inr x \<and> f x = Inr y)"
  by (cases m) simp_all

lemma getUint_eq_Inr: "(getUint n view i = Inr x) = (i + n \<le> length view \<and> x = le_nat (take n (drop i view)))"
  by (auto simp: getUint_def)

lemmas get_defs = getUint8_def getUint16_def getUint32_def getFloat32_def getFloat64_def

lemma map_sum_eq_Inr: "(map_sum f g m = Inr y) = (\<exists>x. m = Inr x \<and> y = g x)"
  by (cases m) auto

lemma stageIndexSize_settled:
  "stageIndexSize view (d, 0) = Inr s' \<Longrightarrow> settledUpTo 1 view s'"
  by (cases "readState d")
     (auto simp: stageIndexSize_def settledUpTo_def stuck_def bind_e_eq_Inr get_defs
        getUint_eq_Inr Suc_le_eq split: if_splits)

lemma stageVertexComponents_settled:
  "stageVertexComponents view s = Inr s' \<Longrightarrow> settledUpTo 1 view s \<Longrightarrow> settledUpTo 2 view s'"
  by (cases s, cases "readState (fst s)")
     (auto simp: stageVertexComponents_def settledUpTo_def stuck_def bind_e_eq_Inr get_defs
        getUint_eq_Inr Suc_le_eq split: if_splits)

lemma stageScaleFactor_settled:
  "stageScaleFactor view s = Inr s' \<Longrightarrow> settledUpTo 2 view s \<Longrightarrow> settledUpTo 3 view s'"
  by (cases s, cases "readState (fst s)")
     (auto simp: stageScaleFactor_def settledUpTo_def stuck_def bind_e_eq_Inr get_defs
        getUint_eq_Inr map_sum_eq_Inr split: if_splits)

lemma stageModelOffset_settled:
  "stageModelOffset view s = Inr s' \<Longrightarrow> settledUpTo 3 view s \<Longrightarrow> settledUpTo 4 view s'"
  by (cases s, cases "readState (fst s)")
     (auto simp: stageModelOffset_def settledUpTo_def stuck_def bind_e_eq_Inr get_defs
        getUint_eq_Inr map_sum_eq_Inr split: if_splits)

lemma stageVertexCount_settled:
  "stageVertexCount view s = Inr s' \<Longrightarrow> settledUpTo 4 view s \<Longrightarrow> settledUpTo 5 view s'"
  by (cases s, cases "readState (fst s)")
     (auto simp: stageVertexCount_def settledUpTo_def stuck_def bind_e_eq_Inr get_defs
        getUint_eq_Inr map_sum_eq_Inr split: if_splits)

lemma stageIndexCount_settled:
  "stageIndexCount view s = Inr s' \<Longrightarrow> settledUpTo 5 view s \<Longrightarrow> settledUpTo 6 view s'"
  by (cases s, cases "readState (fst s)")
     (auto simp: stageIndexCount_def settledUpTo_def stuck_def bind_e_eq_Inr get_defs
        getUint_eq_Inr map_sum_eq_Inr split: if_splits)

lemma readHeader_settled:
  assumes "readHeader view (d, 0) = Inr s'"
  shows "settledUpTo 6 view s'"
proof -
  from assms obtain s1 s2 s3 s4 s5 where
    "stageIndexSize view (d, 0) = Inr s1" "stageVertexComponents view s1 = Inr s2"
    "stageScaleFactor view s2 = Inr s3" "stageModelOffset view s3 = Inr s4"
    "stageVertexCount view s4 = Inr s5" "stageIndexCount view s5 = Inr s'"
    by (auto simp: readHeader_def bind_e_eq_Inr)
  then show ?thesis
    by (blast intro: stageIndexSize_settled stageVertexComponents_settled
        stageScaleFactor_settled stageModelOffset_settled stageVertexCount_settled
        stageIndexCount_settled)
qed

declare readVertexData.simps [simp del] readIndexData.simps [simp del]

lemma readVertexData_settled:
  "readVertexData view s = Inr s' \<Longrightarrow> settledUpTo 6 view s \<Longrightarrow> settledUpTo 7 view s'"
proof (induction view s rule: readVertexData.induct)
  case (1 view d readIndex)
  show ?case
  proof (cases "readState d = VertexData \<and> 4 \<le> length view - readIndex")
    case False
    with "1.prems" show ?thesis
      by (cases "readState d")
         (auto simp: readVertexData.simps [of view d readIndex] settledUpTo_def stuck_def)
  next
    case True
    show ?thesis
    proof (cases "vertexBufferSize d \<le> vertexWriteIndex d")
      case full: True
      with True "1.prems" show ?thesis
        by (auto simp: readVertexData.simps [of view d readIndex] settledUpTo_def)
    next
      case room: False
      from True room "1.prems"(1) obtain vertex where
        v: "getUint32 view readIndex = Inr vertex" and
        r: "readVertexData view
            (d\<lparr>vertices := (vertices d)[vertexWriteIndex d := word_of_nat vertex],
               vertexWriteIndex := vertexWriteIndex d + 1\<rparr>, readIndex + 4) = Inr s'"
        by (auto simp: readVertexData.simps [of view d readIndex] bind_e_eq_Inr)
      from True have "settledUpTo 6 view
            (d\<lparr>vertices := (vertices d)[vertexWriteIndex d := word_of_nat vertex],
               vertexWriteIndex := vertexWriteIndex d + 1\<rparr>, readIndex + 4)"
        by (auto simp: settledUpTo_def)
      with "1.IH" [OF True room r] show ?thesis by simp
    qed
  qed
qed

lemma putIndex_readState:
  "readState (putIndex d i) = IndexData \<or> readState (putIndex d i) = Done" if "readState d = IndexData"
  using that by (auto simp: putIndex_def Let_def)

lemma readIndexData_settled:
  "readIndexData view s = Inr s' \<Longrightarrow> settledUpTo 7 view s \<Longrightarrow> settledUpTo 8 view s'"
proof (induction view s rule: readIndexData.induct)
  case (1 view d readIndex)
  show ?case
  proof (cases "readState d = IndexData \<and> indexSize d \<le> length view - readIndex
         \<and> indicesWriteIndex d < indexCount d")
    case False
    with "1.prems" show ?thesis
      by (cases "readState d")
         (auto simp: readIndexData.simps [of view d readIndex] settledUpTo_def stuck_def)
  next
    case True
    from True "1.prems"(1) obtain index where
      v: "getIndex (indexSize d) view readIndex = Inr index" and
      r: "readIndexData view (putIndex d index, readIndex + indexSize d) = Inr s'"
      by (auto simp: readIndexData.simps [of view d readIndex] bind_e_eq_Inr)
    from True "1.prems"(2) putIndex_readState [of d index]
    have "settledUpTo 7 view (putIndex d index, readIndex + indexSize d)"
      by (auto simp: settledUpTo_def)
    with "1.IH" [OF True r] show ?thesis by simp
  qed
qed

subsection \<open>What a pass leaves unchanged, and the carry it stores\<close>

lemma readHeader_stages:
  assumes "readHeader view s = Inr s'"
  obtains s1 s2 s3 s4 s5 where
    "stageIndexSize view s = Inr s1" "stageVertexComponents view s1 = Inr s2"
    "stageScaleFactor view s2 = Inr s3" "stageModelOffset view s3 = Inr s4"
    "stageVertexCount view s4 = Inr s5" "stageIndexCount view s5 = Inr s'"
  using assms by (auto simp: readHeader_def bind_e_eq_Inr)

lemmas stage_defs = stageIndexSize_def stageVertexComponents_def stageScaleFactor_def
  stageModelOffset_def stageVertexCount_def stageIndexCount_def

lemma stage_keeps_trailing:
  "stageIndexSize view s = Inr s' \<Longrightarrow> trailingChunkData (fst s') = trailingChunkData (fst s)"
  "stageVertexComponents view s = Inr s' \<Longrightarrow> trailingChunkData (fst s') = trailingChunkData (fst s)"
  "stageScaleFactor view s = Inr s' \<Longrightarrow> trailingChunkData (fst s') = trailingChunkData (fst s)"
  "stageModelOffset view s = Inr s' \<Longrightarrow> trailingChunkData (fst s') = trailingChunkData (fst s)"
  "stageVertexCount view s = Inr s' \<Longrightarrow> trailingChunkData (fst s') = trailingChunkData (fst s)"
  "stageIndexCount view s = Inr s' \<Longrightarrow> trailingChunkData (fst s') = trailingChunkData (fst s)"
  by (cases s; auto simp: stage_defs bind_e_eq_Inr split: if_splits)+

lemma readHeader_keeps_trailing:
  assumes "readHeader view s = Inr s'"
  shows "trailingChunkData (fst s') = trailingChunkData (fst s)"
  using assms by (elim readHeader_stages) (simp add: stage_keeps_trailing)

lemma readVertexData_keeps:
  "readVertexData view s = Inr s' \<Longrightarrow>
     trailingChunkData (fst s') = trailingChunkData (fst s)
     \<and> headerFields (fst s') = headerFields (fst s)
     \<and> indices (fst s') = indices (fst s)
     \<and> indicesWriteIndex (fst s') = indicesWriteIndex (fst s)"
proof (induction view s rule: readVertexData.induct)
  case (1 view d readIndex)
  show ?case
  proof (cases "readState d = VertexData \<and> 4 \<le> length view - readIndex
      \<and> vertexWriteIndex d < vertexBufferSize d")
    case False
    with "1.prems" show ?thesis
      by (auto simp: readVertexData.simps [of view d readIndex] headerFields_def
          split: if_splits)
  next
    case True
    with "1.prems" obtain vertex where
      r: "readVertexData view
            (d\<lparr>vertices := (vertices d)[vertexWriteIndex d := word_of_nat vertex],
               vertexWriteIndex := vertexWriteIndex d + 1\<rparr>, readIndex + 4) = Inr s'"
      by (auto simp: readVertexData.simps [of view d readIndex] bind_e_eq_Inr)
    from True have "\<not> vertexBufferSize d \<le> vertexWriteIndex d" by simp
    from "1.IH" [OF _ this r] True show ?thesis
      by (simp add: headerFields_def)
  qed
qed

lemma putIndex_keeps:
  "trailingChunkData (putIndex d i) = trailingChunkData d"
  "headerFields (putIndex d i) = headerFields d"
  "vertices (putIndex d i) = vertices d"
  "vertexWriteIndex (putIndex d i) = vertexWriteIndex d"
  by (simp_all add: putIndex_def Let_def headerFields_def)

lemma readIndexData_keeps:
  "readIndexData view s = Inr s' \<Longrightarrow>
     trailingChunkData (fst s') = trailingChunkData (fst s)
     \<and> headerFields (fst s') = headerFields (fst s)
     \<and> vertices (fst s') = vertices (fst s)
     \<and> vertexWriteIndex (fst s') = vertexWriteIndex (fst s)"
proof (induction view s rule: readIndexData.induct)
  case (1 view d readIndex)
  show ?case
  proof (cases "readState d = IndexData \<and> indexSize d \<le> length view - readIndex
         \<and> indicesWriteIndex d < indexCount d")
    case False
    with "1.prems" show ?thesis
      by (auto simp: readIndexData.simps [of view d readIndex])
  next
    case True
    with "1.prems" obtain index where
      r: "readIndexData view (putIndex d index, readIndex + indexSize d) = Inr s'"
      by (auto simp: readIndexData.simps [of view d readIndex] bind_e_eq_Inr)
    from "1.IH" [OF True r] show ?thesis
      by (simp add: putIndex_keeps)
  qed
qed

lemma mergeTrailing_eq:
  "mergeTrailing d v =
     (if carryBytes d = [] then d else d\<lparr>trailingChunkData := None\<rparr>, carryBytes d @ v)"
  by (simp add: mergeTrailing_def carryBytes_def split: option.split)

lemma processChunk_passes:
  assumes "processChunk d v = Inr d'"
  obtains d0 s1 s2 s3 where
    "d0 = (if carryBytes d = [] then d else d\<lparr>trailingChunkData := None\<rparr>)"
    "readHeader (carryBytes d @ v) (d0, 0) = Inr s1"
    "readVertexData (carryBytes d @ v) s1 = Inr s2"
    "readIndexData (carryBytes d @ v) s2 = Inr s3"
    "d' = storeTrailing (carryBytes d @ v) s3"
  using assms unfolding processChunk_def mergeTrailing_eq prod.case bind_e_eq_Inr
  by blast

lemma carryBytes_merged:
  "carryBytes (if carryBytes d = [] then d else d\<lparr>trailingChunkData := None\<rparr>) = []"
  by (simp add: carryBytes_def)

lemma carryBytes_storeTrailing:
  "carryBytes d = [] \<Longrightarrow> carryBytes (storeTrailing view (d, readIndex)) = drop readIndex view"
  by (simp add: storeTrailing_def carryBytes_def)

lemma stuck_storeTrailing:
  "stuck view (d, readIndex) \<Longrightarrow> carryBytes d = [] \<Longrightarrow>
     stuck (carryBytes (storeTrailing view (d, readIndex))) (storeTrailing view (d, readIndex), 0)"
  unfolding carryBytes_storeTrailing
  by (cases "readState d") (auto simp: stuck_def storeTrailing_def)

lemma settled_8_stuck: "settledUpTo 8 view s \<Longrightarrow> stuck view s"
  by (cases s, cases "readState (fst s)") (auto simp: settledUpTo_def stuck_def)

lemma processChunk_carry:
  assumes "processChunk d v = Inr d'"
  shows "\<exists>n. carryBytes d' = drop n (carryBytes d @ v)"
proof -
  from assms obtain d0 s1 s2 s3 where
    d0: "d0 = (if carryBytes d = [] then d else d\<lparr>trailingChunkData := None\<rparr>)" and
    h: "readHeader (carryBytes d @ v) (d0, 0) = Inr s1" and
    vd: "readVertexData (carryBytes d @ v) s1 = Inr s2" and
    ix: "readIndexData (carryBytes d @ v) s2 = Inr s3" and
    st: "d' = storeTrailing (carryBytes d @ v) s3"
    by (rule processChunk_passes)
  have "trailingChunkData (fst s3) = trailingChunkData d0"
    using readHeader_keeps_trailing [OF h] readVertexData_keeps [OF vd]
      readIndexData_keeps [OF ix] by simp
  then have "carryBytes (fst s3) = []"
    using carryBytes_merged [of d] d0 by (simp add: carryBytes_def)
  then have "carryBytes d' = drop (snd s3) (carryBytes d @ v)"
    using st carryBytes_storeTrailing [of "fst s3" "carryBytes d @ v" "snd s3"] by simp
  then show ?thesis ..
qed

lemma processChunk_stuck:
  assumes "processChunk d v = Inr d'"
  shows "stuck (carryBytes d') (d', 0)"
proof -
  from assms obtain d0 s1 s2 s3 where
    d0: "d0 = (if carryBytes d = [] then d else d\<lparr>trailingChunkData := None\<rparr>)" and
    h: "readHeader (carryBytes d @ v) (d0, 0) = Inr s1" and
    vd: "readVertexData (carryBytes d @ v) s1 = Inr s2" and
    ix: "readIndexData (carryBytes d @ v) s2 = Inr s3" and
    st: "d' = storeTrailing (carryBytes d @ v) s3"
    by (rule processChunk_passes)
  have "trailingChunkData (fst s3) = trailingChunkData d0"
    using readHeader_keeps_trailing [OF h] readVertexData_keeps [OF vd]
      readIndexData_keeps [OF ix] by simp
  then have c: "carryBytes (fst s3) = []"
    using carryBytes_merged [of d] d0 by (simp add: carryBytes_def)
  have "stuck (carryBytes d @ v) s3"
    by (intro settled_8_stuck readIndexData_settled [OF ix] readVertexData_settled [OF vd]
        readHeader_settled [OF h])
  with c st stuck_storeTrailing [of "carryBytes d @ v" "fst s3" "snd s3"]
  show ?thesis by simp
qed

lemma fst_readChunk_Cons:
  "fst (readChunk d (v # reader)) =
     (case processChunk d v of Inl e \<Rightarrow> Inl e | Inr d' \<Rightarrow> fst (readChunk d' reader))"
  by (simp split: sum.split prod.split)

lemma initial_stuck: "stuck (carryBytes initial) (initial, 0)"
  by (simp add: stuck_def initial_def carryBytes_def)

lemma readChunk_stuck:
  "fst (readChunk d reader) = Inr d' \<Longrightarrow> stuck (carryBytes d) (d, 0) \<Longrightarrow>
     stuck (carryBytes d') (d', 0)"
proof (induction reader arbitrary: d)
  case Nil
  then show ?case by simp
next
  case (Cons v reader)
  from Cons.prems(1) obtain d1 where
    p: "processChunk d v = Inr d1" and r: "fst (readChunk d1 reader) = Inr d'"
    by (auto simp: fst_readChunk_Cons simp del: readChunk_Cons split: sum.splits)
  from Cons.IH [OF r processChunk_stuck [OF p]] show ?case .
qed

lemma stuck_readHeader:
  "stuck view (d, readIndex) \<Longrightarrow> readHeader view (d, readIndex) = Inr (d, readIndex)"
  by (cases "readState d"; simp add: stuck_def readHeader_def stage_defs)

lemma stuck_readVertexData:
  "stuck view (d, readIndex) \<Longrightarrow> readVertexData view (d, readIndex) = Inr (d, readIndex)"
  by (cases "readState d"; simp add: stuck_def readVertexData.simps)

lemma stuck_readIndexData:
  "stuck view (d, readIndex) \<Longrightarrow> readIndexData view (d, readIndex) = Inr (d, readIndex)"
  by (cases "readState d"; auto simp add: stuck_def readIndexData.simps)

lemmas stuck_pass = stuck_readHeader stuck_readVertexData stuck_readIndexData

lemma stuck_empty_chunk:
  assumes "stuck (carryBytes d) (d, 0)"
  shows "processChunk d [] = Inr d"
proof (cases "carryBytes d = []")
  case True
  with assms show ?thesis
    by (simp add: processChunk_def mergeTrailing_eq stuck_pass storeTrailing_def)
next
  case False
  then have t: "trailingChunkData d = Some (carryBytes d)"
    by (auto simp: carryBytes_def split: option.splits)
  from assms have "stuck (carryBytes d) (d\<lparr>trailingChunkData := None\<rparr>, 0)"
    by (cases "readState d") (auto simp: stuck_def)
  with False show ?thesis
    by (simp add: processChunk_def mergeTrailing_eq stuck_pass storeTrailing_def flip: t)
qed

lemma after35_run: "fst (readChunk initial [take 35 stream57]) = Inr after35"
  by (simp add: stream57_def after35_def run_defs)

lemma after40_run: "processChunk after35 [0, 0, 0, 3, 0] = Inr after40"
  by (simp add: after35_def after40_def run_defs)

subsection \<open>Partially filled buffers\<close>

lemma elements_newIndices [simp]: "elements (newIndices w n) = replicate n 0"
  by (simp add: newIndices_def)

lemma elements_setIndex: "\<exists>x. elements (setIndex a i v) = (elements a)[i := x]"
  by (cases a) (auto simp: map_update)

lemma drop_Suc_replicate:
  assumes "drop i xs = replicate (n - i) z"
  shows "drop (Suc i) xs = replicate (n - Suc i) z"
proof -
  have "drop (Suc i) xs = drop 1 (drop i xs)" by simp
  also have "\<dots> = replicate (n - Suc i) z" by (simp add: assms)
  finally show ?thesis .
qed

lemma stageIndexSize_partialBuffers:
  "stageIndexSize view s = Inr s' \<Longrightarrow> partialBuffers (fst s) \<Longrightarrow> partialBuffers (fst s')"
  apply (cases s, cases "readState (fst s)")
          apply (simp_all add: stageIndexSize_def bind_e_eq_Inr split: if_splits)
   apply (auto simp: partialBuffers_def)
  done

lemma stageVertexComponents_partialBuffers:
  "stageVertexComponents view s = Inr s' \<Longrightarrow> partialBuffers (fst s) \<Longrightarrow> partialBuffers (fst s')"
  apply (cases s, cases "readState (fst s)")
          apply (simp_all add: stageVertexComponents_def bind_e_eq_Inr split: if_splits)
   apply (auto simp: partialBuffers_def)
  done

lemma stageScaleFactor_partialBuffers:
  "stageScaleFactor view s = Inr s' \<Longrightarrow> partialBuffers (fst s) \<Longrightarrow> partialBuffers (fst s')"
  apply (cases s, cases "readState (fst s)")
          apply (simp_all add: stageScaleFactor_def bind_e_eq_Inr split: if_splits)
   apply (auto simp: partialBuffers_def)
  done

lemma stageModelOffset_partialBuffers:
  "stageModelOffset view s = Inr s' \<Longrightarrow> partialBuffers (fst s) \<Longrightarrow> partialBuffers (fst s')"
  apply (cases s, cases "readState (fst s)")
          apply (simp_all add: stageModelOffset_def bind_e_eq_Inr split: if_splits)
   apply (auto simp: partialBuffers_def)
  done

lemma stageVertexCount_partialBuffers:
  "stageVertexCount view s = Inr s' \<Longrightarrow> partialBuffers (fst s) \<Longrightarrow> partialBuffers (fst s')"
  apply (cases s, cases "readState (fst s)")
          apply (simp_all add: stageVertexCount_def bind_e_eq_Inr split: if_splits)
   apply (auto simp: partialBuffers_def)
  done

lemma stageIndexCount_partialBuffers:
  "stageIndexCount view s = Inr s' \<Longrightarrow> partialBuffers (fst s) \<Longrightarrow> partialBuffers (fst s')"
  apply (cases s, cases "readState (fst s)")
          apply (simp_all add: stageIndexCount_def bind_e_eq_Inr split: if_splits)
   apply (auto simp: partialBuffers_def)
  done

lemmas stage_partialBuffers = stageIndexSize_partialBuffers stageVertexComponents_partialBuffers stageScaleFactor_partialBuffers stageModelOffset_partialBuffers stageVertexCount_partialBuffers stageIndexCount_partialBuffers

lemma readHeader_partialBuffers:
  assumes "readHeader view s = Inr s'" "partialBuffers (fst s)"
  shows "partialBuffers (fst s')"
proof -
  from assms(1) obtain s1 s2 s3 s4 s5 where
    a: "stageIndexSize view s = Inr s1" and b: "stageVertexComponents view s1 = Inr s2" and
    c: "stageScaleFactor view s2 = Inr s3" and d: "stageModelOffset view s3 = Inr s4" and
    e: "stageVertexCount view s4 = Inr s5" and f: "stageIndexCount view s5 = Inr s'"
    by (rule readHeader_stages)
  note stageIndexSize_partialBuffers [OF a assms(2)]
  note stageVertexComponents_partialBuffers [OF b this]
  note stageScaleFactor_partialBuffers [OF c this]
  note stageModelOffset_partialBuffers [OF d this]
  note stageVertexCount_partialBuffers [OF e this]
  note stageIndexCount_partialBuffers [OF f this]
  then show ?thesis .
qed

lemma readVertexData_partialBuffers:
  "readVertexData view s = Inr s' \<Longrightarrow> partialBuffers (fst s) \<Longrightarrow> partialBuffers (fst s')"
proof (induction view s rule: readVertexData.induct)
  case (1 view d readIndex)
  show ?case
  proof (cases "readState d = VertexData \<and> 4 \<le> length view - readIndex")
    case False
    with "1.prems"(1) have "s' = (d, readIndex)"
      by (auto simp: readVertexData.simps [of view d readIndex])
    with "1.prems"(2) show ?thesis by simp
  next
    case True
    show ?thesis
    proof (cases "vertexBufferSize d \<le> vertexWriteIndex d")
      case full: True
      with True "1.prems"(1) have "s' = (d\<lparr>readState := IndexData\<rparr>, readIndex)"
        by (auto simp: readVertexData.simps [of view d readIndex])
      moreover from True "1.prems"(2) have "partialBuffers (d\<lparr>readState := IndexData\<rparr>)"
        by (auto simp: partialBuffers_def)
      ultimately show ?thesis by simp
    next
      case room: False
      with True "1.prems"(1) obtain vertex where
        r: "readVertexData view
            (d\<lparr>vertices := (vertices d)[vertexWriteIndex d := word_of_nat vertex],
               vertexWriteIndex := vertexWriteIndex d + 1\<rparr>, readIndex + 4) = Inr s'"
        by (auto simp: readVertexData.simps [of view d readIndex] bind_e_eq_Inr)
      from True "1.prems"(2)
      have "partialBuffers (d\<lparr>vertices := (vertices d)[vertexWriteIndex d := word_of_nat vertex],
               vertexWriteIndex := vertexWriteIndex d + 1\<rparr>)"
        by (auto simp: partialBuffers_def drop_Suc_replicate)
      with "1.IH" [OF True room r] show ?thesis by simp
    qed
  qed
qed

lemma putIndex_partialBuffers:
  assumes "partialBuffers d" "readState d = IndexData" "indicesWriteIndex d < indexCount d"
  shows "partialBuffers (putIndex d i)"
proof -
  obtain x where "elements (setIndex (indices d) (indicesWriteIndex d) i)
      = (elements (indices d))[indicesWriteIndex d := x]"
    using elements_setIndex by blast
  with assms show ?thesis
    by (auto simp: partialBuffers_def putIndex_def Let_def drop_Suc_replicate)
qed

lemma readIndexData_partialBuffers:
  "readIndexData view s = Inr s' \<Longrightarrow> partialBuffers (fst s) \<Longrightarrow> partialBuffers (fst s')"
proof (induction view s rule: readIndexData.induct)
  case (1 view d readIndex)
  show ?case
  proof (cases "readState d = IndexData \<and> indexSize d \<le> length view - readIndex
         \<and> indicesWriteIndex d < indexCount d")
    case False
    with "1.prems" show ?thesis
      by (auto simp: readIndexData.simps [of view d readIndex])
  next
    case True
    with "1.prems" obtain index where
      r: "readIndexData view (putIndex d index, readIndex + indexSize d) = Inr s'"
      by (auto simp: readIndexData.simps [of view d readIndex] bind_e_eq_Inr)
    from True "1.prems"(2) have "partialBuffers (putIndex d index)"
      by (simp add: putIndex_partialBuffers)
    with "1.IH" [OF True r] show ?thesis by simp
  qed
qed

lemma partialBuffers_trailing [simp]:
  "partialBuffers (d\<lparr>trailingChunkData := t\<rparr>) = partialBuffers d"
  by (simp add: partialBuffers_def)

lemma processChunk_partialBuffers:
  assumes "processChunk d v = Inr d'" "partialBuffers d"
  shows "partialBuffers d'"
proof -
  from assms(1) obtain d0 s1 s2 s3 where
    d0: "d0 = (if carryBytes d = [] then d else d\<lparr>trailingChunkData := None\<rparr>)" and
    h: "readHeader (carryBytes d @ v) (d0, 0) = Inr s1" and
    vd: "readVertexData (carryBytes d @ v) s1 = Inr s2" and
    ix: "readIndexData (carryBytes d @ v) s2 = Inr s3" and
    st: "d' = storeTrailing (carryBytes d @ v) s3"
    by (rule processChunk_passes)
  from d0 assms(2) have "partialBuffers d0" by simp
  with h have "partialBuffers (fst s1)" by (auto dest: readHeader_partialBuffers)
  with vd have "partialBuffers (fst s2)" by (rule readVertexData_partialBuffers)
  with ix have "partialBuffers (fst s3)" by (rule readIndexData_partialBuffers)
  with st show ?thesis by (cases s3) (simp add: storeTrailing_def)
qed

lemma readChunk_partialBuffers:
  "fst (readChunk d reader) = Inr d' \<Longrightarrow> partialBuffers d \<Longrightarrow> partialBuffers d'"
proof (induction reader arbitrary: d)
  case Nil
  then show ?case by simp
next
  case (Cons v reader)
  from Cons.prems(1) obtain d1 where
    p: "processChunk d v = Inr d1" and r: "fst (readChunk d1 reader) = Inr d'"
    by (auto simp: fst_readChunk_Cons simp del: readChunk_Cons split: sum.splits)
  from Cons.IH [OF r processChunk_partialBuffers [OF p Cons.prems(2)]] show ?case .
qed

lemma initial_partialBuffers: "partialBuffers initial"
  by (simp add: partialBuffers_def initial_def)

subsection \<open>The bytes a pass decodes\<close>

text \<open>
  Every stage moves \<open>readIndex\<close> on by the bytes it decodes, so a pass ends
  \<open>consumed d' - consumed d\<close> bytes into its view and stores the rest as the carry; after a
  run the carry is the stream so far without its first \<open>consumed\<close> bytes. From state
  \<open>Done\<close>, and from \<open>IndexData\<close> with every declared index written, a pass decodes
  nothing.
\<close>

lemma consumed_trailing [simp]: "consumed (d\<lparr>trailingChunkData := t\<rparr>) = consumed d"
  by (simp add: consumed_def)

lemma stageIndexSize_consumed:
  "stageIndexSize view s = Inr s' \<Longrightarrow> partialBuffers (fst s) \<Longrightarrow>
     snd s' + consumed (fst s) = snd s + consumed (fst s')"
  by (cases s) (auto simp: stageIndexSize_def bind_e_eq_Inr consumed_def partialBuffers_def
      split: if_splits)

lemma stageVertexComponents_consumed:
  "stageVertexComponents view s = Inr s' \<Longrightarrow>
     snd s' + consumed (fst s) = snd s + consumed (fst s')"
  by (cases s) (auto simp: stageVertexComponents_def bind_e_eq_Inr consumed_def split: if_splits)

lemma stageScaleFactor_consumed:
  "stageScaleFactor view s = Inr s' \<Longrightarrow>
     snd s' + consumed (fst s) = snd s + consumed (fst s')"
  by (cases s) (auto simp: stageScaleFactor_def bind_e_eq_Inr consumed_def split: if_splits)

lemma stageModelOffset_consumed:
  "stageModelOffset view s = Inr s' \<Longrightarrow>
     snd s' + consumed (fst s) = snd s + consumed (fst s')"
  by (cases s) (auto simp: stageModelOffset_def bind_e_eq_Inr consumed_def split: if_splits)

lemma stageVertexCount_consumed:
  "stageVertexCount view s = Inr s' \<Longrightarrow>
     snd s' + consumed (fst s) = snd s + consumed (fst s')"
  by (cases s) (auto simp: stageVertexCount_def bind_e_eq_Inr consumed_def split: if_splits)

lemma stageIndexCount_consumed:
  "stageIndexCount view s = Inr s' \<Longrightarrow>
     snd s' + consumed (fst s) = snd s + consumed (fst s')"
  by (cases s) (auto simp: stageIndexCount_def bind_e_eq_Inr consumed_def split: if_splits)

lemma readVertexData_consumed:
  "readVertexData view s = Inr s' \<Longrightarrow>
     snd s' + consumed (fst s) = snd s + consumed (fst s')"
proof (induction view s rule: readVertexData.induct)
  case (1 view d readIndex)
  show ?case
  proof (cases "readState d = VertexData \<and> 4 \<le> length view - readIndex
      \<and> vertexWriteIndex d < vertexBufferSize d")
    case False
    with "1.prems" show ?thesis
      by (auto simp: readVertexData.simps [of view d readIndex] consumed_def
          split: if_splits)
  next
    case True
    with "1.prems" obtain vertex where
      r: "readVertexData view
            (d\<lparr>vertices := (vertices d)[vertexWriteIndex d := word_of_nat vertex],
               vertexWriteIndex := vertexWriteIndex d + 1\<rparr>, readIndex + 4) = Inr s'"
      by (auto simp: readVertexData.simps [of view d readIndex] bind_e_eq_Inr)
    from True have "\<not> vertexBufferSize d \<le> vertexWriteIndex d" by simp
    from "1.IH" [OF _ this r] True show ?thesis
      by (simp add: consumed_def)
  qed
qed

lemma consumed_putIndex:
  "readState d = IndexData \<Longrightarrow> consumed (putIndex d i) = consumed d + indexSize d"
  by (simp add: putIndex_def Let_def consumed_def)

lemma indexSize_putIndex [simp]: "indexSize (putIndex d i) = indexSize d"
  by (simp add: putIndex_def Let_def)

lemma readIndexData_consumed:
  "readIndexData view s = Inr s' \<Longrightarrow>
     snd s' + consumed (fst s) = snd s + consumed (fst s')"
proof (induction view s rule: readIndexData.induct)
  case (1 view d readIndex)
  show ?case
  proof (cases "readState d = IndexData \<and> indexSize d \<le> length view - readIndex
         \<and> indicesWriteIndex d < indexCount d")
    case False
    with "1.prems" show ?thesis
      by (auto simp: readIndexData.simps [of view d readIndex])
  next
    case True
    with "1.prems" obtain index where
      r: "readIndexData view (putIndex d index, readIndex + indexSize d) = Inr s'"
      by (auto simp: readIndexData.simps [of view d readIndex] bind_e_eq_Inr)
    from "1.IH" [OF True r] True show ?thesis
      by (simp add: consumed_putIndex)
  qed
qed

lemma readHeader_consumed:
  assumes "readHeader view s = Inr s'" and "partialBuffers (fst s)"
  shows "snd s' + consumed (fst s) = snd s + consumed (fst s')"
proof -
  from assms(1) obtain s1 s2 s3 s4 s5 where
    st: "stageIndexSize view s = Inr s1" "stageVertexComponents view s1 = Inr s2"
    "stageScaleFactor view s2 = Inr s3" "stageModelOffset view s3 = Inr s4"
    "stageVertexCount view s4 = Inr s5" "stageIndexCount view s5 = Inr s'"
    by (rule readHeader_stages)
  from stageIndexSize_consumed [OF st(1) assms(2)] stageVertexComponents_consumed [OF st(2)]
    stageScaleFactor_consumed [OF st(3)] stageModelOffset_consumed [OF st(4)]
    stageVertexCount_consumed [OF st(5)] stageIndexCount_consumed [OF st(6)]
  show ?thesis by arith
qed

lemma processChunk_consumed:
  assumes "processChunk d v = Inr d'" and "partialBuffers d"
  shows "consumed d \<le> consumed d'
     \<and> consumed d' - consumed d \<le> length (carryBytes d @ v)
     \<and> carryBytes d' = drop (consumed d' - consumed d) (carryBytes d @ v)"
proof -
  from assms(1) obtain d0 s1 s2 s3 where
    d0: "d0 = (if carryBytes d = [] then d else d\<lparr>trailingChunkData := None\<rparr>)" and
    h: "readHeader (carryBytes d @ v) (d0, 0) = Inr s1" and
    vd: "readVertexData (carryBytes d @ v) s1 = Inr s2" and
    ix: "readIndexData (carryBytes d @ v) s2 = Inr s3" and
    st: "d' = storeTrailing (carryBytes d @ v) s3"
    by (rule processChunk_passes)
  have "trailingChunkData (fst s3) = trailingChunkData d0"
    using readHeader_keeps_trailing [OF h] readVertexData_keeps [OF vd]
      readIndexData_keeps [OF ix] by simp
  then have "carryBytes (fst s3) = []"
    using carryBytes_merged [of d] d0 by (simp add: carryBytes_def)
  then have c: "carryBytes d' = drop (snd s3) (carryBytes d @ v)"
    using st carryBytes_storeTrailing [of "fst s3" "carryBytes d @ v" "snd s3"] by simp
  have "settledUpTo 8 (carryBytes d @ v) s3"
    by (intro readIndexData_settled [OF ix] readVertexData_settled [OF vd]
        readHeader_settled [OF h])
  then have l: "snd s3 \<le> length (carryBytes d @ v)"
    by (cases s3) (simp add: settledUpTo_def)
  from d0 assms(2) have "partialBuffers (fst (d0, 0::nat))" by simp
  from readHeader_consumed [OF h this] readVertexData_consumed [OF vd]
    readIndexData_consumed [OF ix]
  have "snd s3 + consumed d0 = consumed (fst s3)" by simp
  moreover have "consumed d0 = consumed d" by (simp add: d0)
  moreover have "consumed d' = consumed (fst s3)"
    by (cases s3) (simp add: st storeTrailing_def)
  ultimately have "snd s3 = consumed d' - consumed d" "consumed d \<le> consumed d'"
    by simp_all
  with c l show ?thesis by simp
qed

lemma drop_drop_append:
  "n \<le> length xs \<Longrightarrow> drop m (drop n xs @ ys) = drop (n + m) (xs @ ys)"
  by (simp add: add.commute)

lemma readChunk_consumed:
  "fst (readChunk d reader) = Inr d' \<Longrightarrow> partialBuffers d \<Longrightarrow>
     consumed d \<le> consumed d'
     \<and> consumed d' - consumed d \<le> length (carryBytes d @ concat reader)
     \<and> carryBytes d' = drop (consumed d' - consumed d) (carryBytes d @ concat reader)"
proof (induction reader arbitrary: d)
  case Nil
  then show ?case by simp
next
  case (Cons v reader)
  from Cons.prems(1) obtain d1 where
    p: "processChunk d v = Inr d1" and r: "fst (readChunk d1 reader) = Inr d'"
    by (auto simp: fst_readChunk_Cons simp del: readChunk_Cons split: sum.splits)
  from processChunk_consumed [OF p Cons.prems(2)] have
    a: "consumed d \<le> consumed d1" "consumed d1 - consumed d \<le> length (carryBytes d @ v)"
    "carryBytes d1 = drop (consumed d1 - consumed d) (carryBytes d @ v)"
    by simp_all
  from Cons.IH [OF r processChunk_partialBuffers [OF p Cons.prems(2)]] have
    b: "consumed d1 \<le> consumed d'"
    "consumed d' - consumed d1 \<le> length (carryBytes d1 @ concat reader)"
    "carryBytes d' = drop (consumed d' - consumed d1) (carryBytes d1 @ concat reader)"
    by simp_all
  have "consumed d1 - consumed d + (consumed d' - consumed d1) = consumed d' - consumed d"
    using a(1) b(1) by simp
  with drop_drop_append [OF a(2), of "consumed d' - consumed d1" "concat reader"]
  have "drop (consumed d' - consumed d1) (drop (consumed d1 - consumed d) (carryBytes d @ v)
      @ concat reader) = drop (consumed d' - consumed d) ((carryBytes d @ v) @ concat reader)"
    by simp
  with a b show ?case by simp
qed

lemma consumed_initial [simp]: "consumed initial = 0"
  by (simp add: consumed_def initial_def)

lemma exhausted_processChunk:
  assumes "readState d = Done \<or> readState d = IndexData \<and> indexCount d \<le> indicesWriteIndex d"
  shows "\<exists>d'. processChunk d v = Inr d'
           \<and> d' = d\<lparr>trailingChunkData := trailingChunkData d'\<rparr>
           \<and> carryBytes d' = carryBytes d @ v"
proof -
  have "stuck (carryBytes d @ v) (if carryBytes d = [] then d else d\<lparr>trailingChunkData := None\<rparr>, 0)"
    using assms by (auto simp: stuck_def)
  then show ?thesis
    by (auto simp: processChunk_def mergeTrailing_eq stuck_pass storeTrailing_def carryBytes_def
        split: option.splits)
qed

subsection \<open>Runs from state \<open>Done\<close>\<close>

lemma Done_processChunk:
  assumes "readState d = Done"
  shows "\<exists>d'. processChunk d v = Inr d' \<and> readState d' = Done
           \<and> d' = d\<lparr>trailingChunkData := trailingChunkData d'\<rparr>
           \<and> carryBytes d' = carryBytes d @ v"
proof -
  have "stuck (carryBytes d @ v) (if carryBytes d = [] then d else d\<lparr>trailingChunkData := None\<rparr>, 0)"
    using assms by (simp add: stuck_def)
  then show ?thesis
    using assms
    by (auto simp: processChunk_def mergeTrailing_eq stuck_pass storeTrailing_def carryBytes_def
        split: option.splits)
qed

lemma Done_readChunk:
  "readState d = Done \<Longrightarrow>
     snd (readChunk d reader) = replicate (Suc (length reader)) Done
     \<and> (\<exists>d'. fst (readChunk d reader) = Inr d' \<and> readState d' = Done
           \<and> d' = d\<lparr>trailingChunkData := trailingChunkData d'\<rparr>
           \<and> carryBytes d' = carryBytes d @ concat reader)"
proof (induction reader arbitrary: d)
  case Nil
  then show ?case by simp
next
  case (Cons v reader)
  from Done_processChunk [OF Cons.prems, of v] obtain d1 where
    p: "processChunk d v = Inr d1" and s: "readState d1 = Done"
    and e: "d1 = d\<lparr>trailingChunkData := trailingChunkData d1\<rparr>"
    and c: "carryBytes d1 = carryBytes d @ v"
    by blast
  from Cons.IH [OF s] obtain d' where
    r: "snd (readChunk d1 reader) = replicate (Suc (length reader)) Done"
    and f: "fst (readChunk d1 reader) = Inr d'" and s': "readState d' = Done"
    and e': "d' = d1\<lparr>trailingChunkData := trailingChunkData d'\<rparr>"
    and c': "carryBytes d' = carryBytes d1 @ concat reader"
    by blast
  have "d' = d\<lparr>trailingChunkData := trailingChunkData d'\<rparr>"
    by (subst e', subst e) simp
  with p r f s' c c' Cons.prems show ?case
    by (simp add: split_beta)
qed

lemma readChunk_reads:
  "fst (readChunk d reader) = Inr d' \<Longrightarrow> length (snd (readChunk d reader)) = Suc (length reader)"
proof (induction reader arbitrary: d)
  case Nil
  then show ?case by simp
next
  case (Cons v reader)
  then show ?case
    by (auto simp: split_beta split: sum.splits)
qed

lemma after34_run: "processChunk initial stream34 = Inr after34"
  by (simp add: stream34_def after34_def run_defs)

lemma header_then_four_run:
  "\<exists>d. fst (readChunk initial [header 1 0 0 0 @ [9, 9, 9, 9]]) = Inr d
     \<and> readState d = IndexData \<and> indexCount d = 0 \<and> carryBytes d = [9, 9, 9, 9]"
  by (simp add: header_def run_defs carryBytes_def)

lemma stream34_run: "fst (readChunk initial [stream34]) = Inr after34"
  by (simp add: after34_run)

subsection \<open>A first chunk that holds the whole header\<close>

lemma take1_drop: "i < length c \<Longrightarrow> take 1 (drop i c) = [c ! i]"
  by (simp add: take_Suc_conv_app_nth)

lemma take4_drop:
  "i + 4 \<le> length c \<Longrightarrow> take 4 (drop i c) = [c ! i, c ! (i + 1), c ! (i + 2), c ! (i + 3)]"
  by (simp add: numeral_eq_Suc take_Suc_conv_app_nth add.commute)

lemma maskBit_unat:
  "maskBit (unat b) 1 = bit b 0" "maskBit (unat b) 2 = bit b 1" "maskBit (unat b) 4 = bit b 2"
  for b :: byte
proof -
  have *: "maskBit (unat b) (2 ^ n) = bit b n" if "n < 8" for n
  proof -
    have "maskBit (unat b) (2 ^ n) = bit (word_of_nat (unat b) :: 32 word) n"
      by (simp add: maskBit_def and_exp_eq_0_iff_not_bit)
    also have "\<dots> = bit b n"
      using that by (simp add: bit_simps)
    finally show ?thesis .
  qed
  from * [of 0] * [of 1] * [of 2]
  show "maskBit (unat b) 1 = bit b 0" "maskBit (unat b) 2 = bit b 1" "maskBit (unat b) 4 = bit b 2"
    by simp_all
qed

lemma readHeader_full:
  assumes "30 \<le> length c"
  shows "readHeader c (initial, 0) =
    Inr (initial\<lparr>readState := VertexData,
           indexSize := unat (c ! 0),
           hasColor := bit (c ! 1) 2, hasNormal := bit (c ! 1) 1, hasUV := bit (c ! 1) 0,
           scale := word_of_nat (le_nat (take 8 (drop 2 c))),
           offset := [word_of_nat (le_nat (take 4 (drop 10 c))),
                      word_of_nat (le_nat (take 4 (drop 14 c))),
                      word_of_nat (le_nat (take 4 (drop 18 c)))],
           vertexBufferSize := le_nat (take 4 (drop 22 c)),
           vertexCount := of_nat (le_nat (take 4 (drop 22 c)))
              / (if bit (c ! 1) 0 \<and> bit (c ! 1) 1 then 4
                 else if bit (c ! 1) 0 \<or> bit (c ! 1) 1 then 3 else 2),
           vertices := replicate (le_nat (take 4 (drop 22 c))) 0,
           indexCount := le_nat (take 4 (drop 26 c)),
           triangleCount := of_nat (le_nat (take 4 (drop 26 c))) / 3,
           indices := newIndices (unat (c ! 0)) (le_nat (take 4 (drop 26 c)))\<rparr>, 30)"
proof -
  from assms have "c \<noteq> []" by auto
  with assms have "take 1 c = [c ! 0]" "take 1 (drop 1 c) = [c ! 1]"
    using take1_drop [of 0 c] take1_drop [of 1 c] by simp_all
  moreover from assms have "4 \<le> length c - 26" "4 \<le> length c - 22"
    "12 \<le> length c - 10" "8 \<le> length c - 2"
    by simp_all
  ultimately show ?thesis
    using assms
    by (simp add: readHeader_def stage_defs get_defs getUint_def initial_def stride_def
        maskBit_unat numeral_2_eq_2 [symmetric])
qed

lemma headerFields_storeTrailing [simp]:
  "headerFields (storeTrailing view s) = headerFields (fst s)"
  by (cases s) (simp add: storeTrailing_def headerFields_def)

lemma carryBytes_initial [simp]: "carryBytes initial = []"
  by (simp add: carryBytes_def initial_def)

lemma first_chunk_headerFields:
  assumes "readHeader c (initial, 0) = Inr (d, n)" and "processChunk initial c = Inr d'"
  shows "headerFields d' = headerFields d"
proof -
  from assms(2) obtain s1 s2 s3 where
    h: "readHeader c (initial, 0) = Inr s1" and
    vd: "readVertexData c s1 = Inr s2" and
    ix: "readIndexData c s2 = Inr s3" and
    st: "d' = storeTrailing c s3"
    by (auto elim: processChunk_passes)
  from h assms(1) have "s1 = (d, n)" by simp
  with readVertexData_keeps [OF vd] readIndexData_keeps [OF ix] st show ?thesis by simp
qed

lemma unat_byte_eq: "(unat b = Suc 0) = (b = 1)" "(unat b = 2) = (b = 2)" for b :: byte
  using word_unat_eq_iff [of b 1] word_unat_eq_iff [of b 2] by simp_all

subsection \<open>Runs over an empty mesh\<close>

lemma emptyMesh_trailing [simp]: "emptyMesh (d\<lparr>trailingChunkData := t\<rparr>) = emptyMesh d"
  by (simp add: emptyMesh_def)

lemma emptyMesh_readHeader: "emptyMesh d \<Longrightarrow> readHeader view (d, n) = Inr (d, n)"
  by (auto simp: emptyMesh_def readHeader_def stage_defs)

lemma emptyMesh_readVertexData:
  "emptyMesh d \<Longrightarrow> \<exists>d'. readVertexData view (d, n) = Inr (d', n) \<and> emptyMesh d'
     \<and> trailingChunkData d' = trailingChunkData d"
  by (auto simp: emptyMesh_def readVertexData.simps)

lemma emptyMesh_readIndexData: "emptyMesh d \<Longrightarrow> readIndexData view (d, n) = Inr (d, n)"
  by (auto simp: emptyMesh_def readIndexData.simps)

lemma emptyMesh_pass:
  assumes "emptyMesh d" "carryBytes d = []"
  shows "\<exists>d'. bind_e (readHeader view (d, n)) (\<lambda>s. bind_e (readVertexData view s) (\<lambda>s.
           bind_e (readIndexData view s) (\<lambda>s. Inr (storeTrailing view s)))) = Inr d'
         \<and> emptyMesh d' \<and> carryBytes d' = drop n view"
proof -
  from emptyMesh_readVertexData [OF assms(1), of view n] obtain d1 where
    v: "readVertexData view (d, n) = Inr (d1, n)" and e: "emptyMesh d1"
    and t: "trailingChunkData d1 = trailingChunkData d"
    by blast
  from t assms(2) have "carryBytes d1 = []" by (simp add: carryBytes_def)
  then have "carryBytes (storeTrailing view (d1, n)) = drop n view"
    by (rule carryBytes_storeTrailing)
  moreover from e have "emptyMesh (storeTrailing view (d1, n))"
    by (simp add: storeTrailing_def)
  ultimately show ?thesis
    by (simp add: emptyMesh_readHeader [OF assms(1)] v emptyMesh_readIndexData [OF e])
qed

lemma emptyMesh_processChunk:
  assumes "emptyMesh d"
  shows "\<exists>d'. processChunk d v = Inr d' \<and> emptyMesh d' \<and> carryBytes d' = carryBytes d @ v"
proof -
  let ?d0 = "if carryBytes d = [] then d else d\<lparr>trailingChunkData := None\<rparr>"
  from assms have "emptyMesh ?d0" by simp
  from emptyMesh_pass [OF this carryBytes_merged, of "carryBytes d @ v" 0]
  show ?thesis by (simp add: processChunk_def mergeTrailing_eq)
qed

lemma emptyMesh_readChunk:
  "emptyMesh d \<Longrightarrow> \<exists>d'. fst (readChunk d reader) = Inr d' \<and> emptyMesh d'
     \<and> carryBytes d' = carryBytes d @ concat reader"
proof (induction reader arbitrary: d)
  case Nil
  then show ?case by simp
next
  case (Cons v reader)
  from emptyMesh_processChunk [OF Cons.prems, of v] obtain d1 where
    p: "processChunk d v = Inr d1" and e: "emptyMesh d1" and c: "carryBytes d1 = carryBytes d @ v"
    by blast
  from Cons.IH [OF e] p c show ?case
    by (simp add: fst_readChunk_Cons del: readChunk_Cons)
qed

lemma emptyMesh_first_chunk:
  assumes "30 \<le> length c" and "le_nat (take 4 (drop 22 c)) = 0"
    and "le_nat (take 4 (drop 26 c)) = 0"
  shows "\<exists>d. processChunk initial c = Inr d \<and> emptyMesh d \<and> carryBytes d = drop 30 c"
proof -
  from readHeader_full [OF assms(1)] obtain d0 where
    h: "readHeader c (initial, 0) = Inr (d0, 30)" and
    d0: "readState d0 = VertexData" "vertexBufferSize d0 = le_nat (take 4 (drop 22 c))"
      "indexCount d0 = le_nat (take 4 (drop 26 c))"
      "vertices d0 = replicate (le_nat (take 4 (drop 22 c))) 0"
      "elements (indices d0) = replicate (le_nat (take 4 (drop 26 c))) 0"
      "vertexWriteIndex d0 = 0" "indicesWriteIndex d0 = 0" "trailingChunkData d0 = None"
    by (simp add: initial_def)
  from d0 assms(2,3) have e: "emptyMesh d0" by (simp add: emptyMesh_def)
  from d0 have "carryBytes d0 = []" by (simp add: carryBytes_def)
  from emptyMesh_pass [OF e this, of c 30]
  show ?thesis
    by (simp add: processChunk_def mergeTrailing_eq h emptyMesh_readHeader [OF e])
qed

subsection \<open>Two chunks and their concatenation\<close>

text \<open>
  A pass over a longer view repeats the steps of the pass over a prefix and goes on from
  where that one stopped (\<open>pass_restart\<close>); a pass that starts \<open>r\<close> bytes into a view is the
  pass over the view without its first \<open>r\<close> bytes (\<open>pass_shift\<close>). So processing a chunk
  and then a second one is processing their concatenation, when the first does not throw.
\<close>

lemma bind_e_assoc: "bind_e (bind_e m f) g = bind_e m (\<lambda>x. bind_e (f x) g)"
  by (cases m) simp_all

lemma bind_e_Inr_right: "bind_e m Inr = m"
  by (cases m) simp_all

lemma processChunk_seqE:
  "processChunk d v =
     bind_e (seqE (passStages (carryBytes d @ v))
        (if carryBytes d = [] then d else d\<lparr>trailingChunkData := None\<rparr>, 0))
      (\<lambda>s. Inr (storeTrailing (carryBytes d @ v) s))"
  by (simp add: processChunk_def mergeTrailing_eq passStages_def readHeader_def bind_e_assoc
      bind_e_Inr_right)

lemma stage_skip:
  "rk s \<noteq> 0 \<Longrightarrow> stageIndexSize view s = Inr s"
  "rk s \<noteq> 1 \<Longrightarrow> stageVertexComponents view s = Inr s"
  "rk s \<noteq> 2 \<Longrightarrow> stageScaleFactor view s = Inr s"
  "rk s \<noteq> 3 \<Longrightarrow> stageModelOffset view s = Inr s"
  "rk s \<noteq> 4 \<Longrightarrow> stageVertexCount view s = Inr s"
  "rk s \<noteq> 5 \<Longrightarrow> stageIndexCount view s = Inr s"
  "rk s \<noteq> 6 \<Longrightarrow> readVertexData view s = Inr s"
  "rk s \<noteq> 7 \<Longrightarrow> readIndexData view s = Inr s"
  by (cases s, cases "readState (fst s)";
      simp add: rk_def stage_defs readVertexData.simps readIndexData.simps)+

lemma getUint_append: "getUint n view i = Inr x \<Longrightarrow> getUint n (view @ w) i = Inr x"
  by (auto simp: getUint_eq_Inr)

lemma getUint_append_iff:
  "i + n \<le> length view \<Longrightarrow> getUint n (view @ w) i = getUint n view i"
  by (simp add: getUint_def)

lemma get_append:
  "getUint8 view i = Inr x \<Longrightarrow> getUint8 (view @ w) i = Inr x"
  "getUint16 view i = Inr x \<Longrightarrow> getUint16 (view @ w) i = Inr x"
  "getUint32 view i = Inr x \<Longrightarrow> getUint32 (view @ w) i = Inr x"
  "getFloat32 view i = Inr y \<Longrightarrow> getFloat32 (view @ w) i = Inr y"
  "getFloat64 view i = Inr z \<Longrightarrow> getFloat64 (view @ w) i = Inr z"
  by (auto simp: get_defs map_sum_eq_Inr getUint_append)

lemma stageIndexSize_restart:
  assumes "stageIndexSize view s = Inr s'"
  shows "rk s \<le> rk s' \<and> stageIndexSize (view @ w) s = stageIndexSize (view @ w) s'"
proof (cases "s' = s")
  case True
  then show ?thesis by simp
next
  case False
  with assms have "stageIndexSize (view @ w) s = Inr s' \<and> rk s = 0 \<and> rk s' = 1"
    by (cases s)
       (auto simp: stageIndexSize_def rk_def bind_e_eq_Inr get_append split: if_splits)
  then show ?thesis by (simp add: stage_skip)
qed

lemma stageVertexComponents_restart:
  assumes "stageVertexComponents view s = Inr s'"
  shows "rk s \<le> rk s' \<and> stageVertexComponents (view @ w) s = stageVertexComponents (view @ w) s'"
proof (cases "s' = s")
  case True
  then show ?thesis by simp
next
  case False
  with assms have "stageVertexComponents (view @ w) s = Inr s' \<and> rk s = 1 \<and> rk s' = 2"
    by (cases s)
       (auto simp: stageVertexComponents_def rk_def bind_e_eq_Inr get_append split: if_splits)
  then show ?thesis by (simp add: stage_skip)
qed

lemma stageScaleFactor_restart:
  assumes "stageScaleFactor view s = Inr s'"
  shows "rk s \<le> rk s' \<and> stageScaleFactor (view @ w) s = stageScaleFactor (view @ w) s'"
proof (cases "s' = s")
  case True
  then show ?thesis by simp
next
  case False
  with assms have "stageScaleFactor (view @ w) s = Inr s' \<and> rk s = 2 \<and> rk s' = 3"
    by (cases s)
       (auto simp: stageScaleFactor_def rk_def bind_e_eq_Inr get_append split: if_splits)
  then show ?thesis by (simp add: stage_skip)
qed

lemma stageModelOffset_restart:
  assumes "stageModelOffset view s = Inr s'"
  shows "rk s \<le> rk s' \<and> stageModelOffset (view @ w) s = stageModelOffset (view @ w) s'"
proof (cases "s' = s")
  case True
  then show ?thesis by simp
next
  case False
  with assms have "stageModelOffset (view @ w) s = Inr s' \<and> rk s = 3 \<and> rk s' = 4"
    by (cases s)
       (auto simp: stageModelOffset_def rk_def bind_e_eq_Inr get_append split: if_splits)
  then show ?thesis by (simp add: stage_skip)
qed

lemma stageVertexCount_restart:
  assumes "stageVertexCount view s = Inr s'"
  shows "rk s \<le> rk s' \<and> stageVertexCount (view @ w) s = stageVertexCount (view @ w) s'"
proof (cases "s' = s")
  case True
  then show ?thesis by simp
next
  case False
  with assms have "stageVertexCount (view @ w) s = Inr s' \<and> rk s = 4 \<and> rk s' = 5"
    by (cases s)
       (auto simp: stageVertexCount_def rk_def bind_e_eq_Inr get_append split: if_splits)
  then show ?thesis by (simp add: stage_skip)
qed

lemma stageIndexCount_restart:
  assumes "stageIndexCount view s = Inr s'"
  shows "rk s \<le> rk s' \<and> stageIndexCount (view @ w) s = stageIndexCount (view @ w) s'"
proof (cases "s' = s")
  case True
  then show ?thesis by simp
next
  case False
  with assms have "stageIndexCount (view @ w) s = Inr s' \<and> rk s = 5 \<and> rk s' = 6"
    by (cases s)
       (auto simp: stageIndexCount_def rk_def bind_e_eq_Inr get_append split: if_splits)
  then show ?thesis by (simp add: stage_skip)
qed

lemma readVertexData_restart:
  "readVertexData view s = Inr s' \<Longrightarrow>
     rk s \<le> rk s' \<and> readVertexData (view @ w) s = readVertexData (view @ w) s'"
proof (induction view s rule: readVertexData.induct)
  case (1 view d readIndex)
  show ?case
  proof (cases "readState d = VertexData \<and> 4 \<le> length view - readIndex")
    case False
    with "1.prems" have "s' = (d, readIndex)"
      by (auto simp: readVertexData.simps [of view d readIndex])
    then show ?thesis by simp
  next
    case True
    then have g: "4 \<le> length (view @ w) - readIndex" by auto
    show ?thesis
    proof (cases "vertexBufferSize d \<le> vertexWriteIndex d")
      case full: True
      with True "1.prems" have s': "s' = (d\<lparr>readState := IndexData\<rparr>, readIndex)"
        by (auto simp: readVertexData.simps [of view d readIndex])
      from True g full have "readVertexData (view @ w) (d, readIndex) = Inr s'"
        by (simp add: readVertexData.simps [of "view @ w" d readIndex] s')
      moreover have "readVertexData (view @ w) s' = Inr s'"
        by (rule stage_skip) (simp add: rk_def s')
      ultimately show ?thesis using True by (simp add: rk_def s')
    next
      case room: False
      with True "1.prems" obtain vertex where
        v: "getUint32 view readIndex = Inr vertex" and
        r: "readVertexData view
            (d\<lparr>vertices := (vertices d)[vertexWriteIndex d := word_of_nat vertex],
               vertexWriteIndex := vertexWriteIndex d + 1\<rparr>, readIndex + 4) = Inr s'"
        by (auto simp: readVertexData.simps [of view d readIndex] bind_e_eq_Inr)
      from True g room get_append(3) [OF v, of w]
      have "readVertexData (view @ w) (d, readIndex) = readVertexData (view @ w)
            (d\<lparr>vertices := (vertices d)[vertexWriteIndex d := word_of_nat vertex],
               vertexWriteIndex := vertexWriteIndex d + 1\<rparr>, readIndex + 4)"
        by (simp add: readVertexData.simps [of "view @ w" d readIndex])
      with "1.IH" [OF True room r] show ?thesis by (simp add: rk_def)
    qed
  qed
qed

lemma getIndex_append: "getIndex n view i = Inr x \<Longrightarrow> getIndex n (view @ w) i = Inr x"
  by (auto simp: getIndex_def get_append)

lemma rk_putIndex: "readState d = IndexData \<Longrightarrow> 7 \<le> rank (readState (putIndex d i))"
  by (auto simp: putIndex_def Let_def)

lemma readIndexData_restart:
  "readIndexData view s = Inr s' \<Longrightarrow>
     rk s \<le> rk s' \<and> readIndexData (view @ w) s = readIndexData (view @ w) s'"
proof (induction view s rule: readIndexData.induct)
  case (1 view d readIndex)
  show ?case
  proof (cases "readState d = IndexData \<and> indexSize d \<le> length view - readIndex
         \<and> indicesWriteIndex d < indexCount d")
    case False
    with "1.prems" have "s' = (d, readIndex)"
      by (auto simp: readIndexData.simps [of view d readIndex])
    then show ?thesis by simp
  next
    case True
    then have g: "indexSize d \<le> length (view @ w) - readIndex" by auto
    from True "1.prems" obtain index where
      v: "getIndex (indexSize d) view readIndex = Inr index" and
      r: "readIndexData view (putIndex d index, readIndex + indexSize d) = Inr s'"
      by (auto simp: readIndexData.simps [of view d readIndex] bind_e_eq_Inr)
    from True g getIndex_append [OF v, of w]
    have "readIndexData (view @ w) (d, readIndex) =
          readIndexData (view @ w) (putIndex d index, readIndex + indexSize d)"
      by (simp add: readIndexData.simps [of "view @ w" d readIndex])
    with "1.IH" [OF True r] True rk_putIndex [of d index] show ?thesis
      by (simp add: rk_def)
  qed
qed

lemma seqE_skip:
  "(\<And>j. j < length fs \<Longrightarrow> (fs ! j) s = Inr s) \<Longrightarrow> seqE fs s = Inr s"
proof (induction fs)
  case Nil
  then show ?case by simp
next
  case (Cons f fs)
  from Cons.prems [of 0] have "f s = Inr s" by simp
  moreover have "seqE fs s = Inr s"
  proof (rule Cons.IH)
    fix j assume "j < length fs"
    with Cons.prems [of "Suc j"] show "(fs ! j) s = Inr s" by simp
  qed
  ultimately show ?case by simp
qed

lemma seqE_restart:
  assumes "length gs = length fs"
    and "\<And>j s. j < length fs \<Longrightarrow> rk s \<noteq> k + j \<Longrightarrow> (fs ! j) s = Inr s \<and> (gs ! j) s = Inr s"
    and "\<And>j s s'. j < length fs \<Longrightarrow> (fs ! j) s = Inr s' \<Longrightarrow> rk s \<le> rk s' \<and> (gs ! j) s = (gs ! j) s'"
    and "seqE fs s = Inr s'"
  shows "rk s \<le> rk s' \<and> seqE gs s = seqE gs s'"
  using assms
proof (induction fs arbitrary: gs k s)
  case Nil
  then show ?case by simp
next
  case (Cons f fs)
  from Cons.prems(1) obtain g gs' where gs: "gs = g # gs'" and len: "length gs' = length fs"
    by (cases gs) auto
  from Cons.prems(4) obtain s1 where f: "f s = Inr s1" and r: "seqE fs s1 = Inr s'"
    by (auto simp: bind_e_eq_Inr)
  from Cons.prems(3) [of 0 s s1] f gs have st: "rk s \<le> rk s1" "g s = g s1"
    by simp_all
  have skip': "(fs ! j) t = Inr t \<and> (gs' ! j) t = Inr t" if "j < length fs" "rk t \<noteq> Suc k + j" for j t
    using Cons.prems(2) [of "Suc j" t] that gs by simp
  have step': "rk t \<le> rk t' \<and> (gs' ! j) t = (gs' ! j) t'" if "j < length fs" "(fs ! j) t = Inr t'" for j t t'
    using Cons.prems(3) [of "Suc j" t t'] that gs by simp
  have ih: "rk s1 \<le> rk s' \<and> seqE gs' s1 = seqE gs' s'"
    using len skip' step' r by (rule Cons.IH)
  have gse: "seqE gs t = bind_e (g t) (seqE gs')" for t
    by (simp add: gs)
  show ?case
  proof (cases "rk s1 \<le> k")
    case True
    have "seqE fs s1 = Inr s1"
    proof (rule seqE_skip)
      fix j assume j: "j < length fs"
      from True have "rk s1 \<noteq> Suc k + j" by simp
      with skip' [OF j] show "(fs ! j) s1 = Inr s1" by blast
    qed
    with r have "s' = s1" by simp
    with st show ?thesis unfolding gse by simp
  next
    case False
    with ih have "rk s1 \<noteq> k + 0" "rk s' \<noteq> k + 0" by simp_all
    with Cons.prems(2) [of 0 s1] Cons.prems(2) [of 0 s'] gs
    have g1: "g s1 = Inr s1" and g2: "g s' = Inr s'" by simp_all
    have "seqE gs s = seqE gs' s1" unfolding gse st(2) g1 by simp
    moreover have "seqE gs s' = seqE gs' s'" unfolding gse g2 by simp
    ultimately show ?thesis using st(1) ih by simp
  qed
qed

lemma length_passStages [simp]: "length (passStages view) = 8"
  by (simp add: passStages_def)

lemma below_8:
  assumes "j < (8::nat)"
  obtains "j = 0" | "j = 1" | "j = 2" | "j = 3" | "j = 4" | "j = 5" | "j = 6" | "j = 7"
  using assms by linarith

lemma passStages_skip:
  assumes "j < 8" and "rk s \<noteq> j"
  shows "(passStages view ! j) s = Inr s"
  using assms(1)
proof (cases rule: below_8)
  case 1 with assms(2) show ?thesis by (simp add: passStages_def stage_skip)
next
  case 2 with assms(2) show ?thesis by (simp add: passStages_def stage_skip)
next
  case 3 with assms(2) show ?thesis by (simp add: passStages_def stage_skip)
next
  case 4 with assms(2) show ?thesis by (simp add: passStages_def stage_skip)
next
  case 5 with assms(2) show ?thesis by (simp add: passStages_def stage_skip)
next
  case 6 with assms(2) show ?thesis by (simp add: passStages_def stage_skip)
next
  case 7 with assms(2) show ?thesis by (simp add: passStages_def stage_skip)
next
  case 8 with assms(2) show ?thesis by (simp add: passStages_def stage_skip)
qed

lemma passStages_restart:
  assumes "j < 8" and "(passStages view ! j) s = Inr s'"
  shows "rk s \<le> rk s' \<and> (passStages (view @ w) ! j) s = (passStages (view @ w) ! j) s'"
  using assms(1)
proof (cases rule: below_8)
  case 1 with assms(2) show ?thesis by (simp add: passStages_def stageIndexSize_restart)
next
  case 2 with assms(2) show ?thesis by (simp add: passStages_def stageVertexComponents_restart)
next
  case 3 with assms(2) show ?thesis by (simp add: passStages_def stageScaleFactor_restart)
next
  case 4 with assms(2) show ?thesis by (simp add: passStages_def stageModelOffset_restart)
next
  case 5 with assms(2) show ?thesis by (simp add: passStages_def stageVertexCount_restart)
next
  case 6 with assms(2) show ?thesis by (simp add: passStages_def stageIndexCount_restart)
next
  case 7 with assms(2) show ?thesis by (simp add: passStages_def readVertexData_restart)
next
  case 8 with assms(2) show ?thesis by (simp add: passStages_def readIndexData_restart)
qed

lemma pass_restart:
  assumes "seqE (passStages view) s = Inr s'"
  shows "rk s \<le> rk s' \<and> seqE (passStages (view @ w)) s = seqE (passStages (view @ w)) s'"
proof (rule seqE_restart [where k = 0, OF _ _ _ assms])
  show "length (passStages (view @ w)) = length (passStages view)" by simp
next
  fix j s assume "j < length (passStages view)" and "rk s \<noteq> 0 + j"
  then show "(passStages view ! j) s = Inr s \<and> (passStages (view @ w) ! j) s = Inr s"
    by (simp add: passStages_skip)
next
  fix j s s' assume "j < length (passStages view)" and "(passStages view ! j) s = Inr s'"
  then show "rk s \<le> rk s' \<and> (passStages (view @ w) ! j) s = (passStages (view @ w) ! j) s'"
    by (simp add: passStages_restart)
qed

lemma getUint_shift:
  "r \<le> length view \<Longrightarrow> getUint n view (i + r) = getUint n (drop r view) i"
  by (auto simp: getUint_def add.commute)

lemma get_shift:
  assumes "r \<le> length view"
  shows "getUint8 view (i + r) = getUint8 (drop r view) i"
    "getUint16 view (i + r) = getUint16 (drop r view) i"
    "getUint32 view (i + r) = getUint32 (drop r view) i"
    "getFloat32 view (i + r) = getFloat32 (drop r view) i"
    "getFloat64 view (i + r) = getFloat64 (drop r view) i"
  by (simp_all add: get_defs getUint_shift [OF assms])

lemma getFloat32_shift':
  assumes "r \<le> length view"
  shows "getFloat32 view (i + (r + k)) = getFloat32 (drop r view) (i + k)"
  using get_shift(4) [OF assms, of "i + k"] by (simp add: add.assoc add.left_commute add.commute)

lemma map_sum_bind_e:
  "map_sum id h (bind_e m f) = bind_e m (\<lambda>x. map_sum id h (f x))"
  by (cases m) simp_all

lemma stageIndexSize_shift:
  assumes "2 \<le> rk s" and "r \<le> length view"
  shows "stageIndexSize view (shiftBy r s) = map_sum id (shiftBy r) (stageIndexSize (drop r view) s)"
  using assms(1) get_shift [OF assms(2)]
  by (cases s)
     (auto simp: stageIndexSize_def rk_def shiftBy_def map_sum_bind_e add.assoc add.commute add.left_commute)

lemma stageVertexComponents_shift:
  assumes "2 \<le> rk s" and "r \<le> length view"
  shows "stageVertexComponents view (shiftBy r s) = map_sum id (shiftBy r) (stageVertexComponents (drop r view) s)"
  using assms(1) get_shift [OF assms(2)]
  by (cases s)
     (auto simp: stageVertexComponents_def rk_def shiftBy_def map_sum_bind_e add.assoc add.commute add.left_commute)

lemma stageScaleFactor_shift:
  assumes "2 \<le> rk s" and "r \<le> length view"
  shows "stageScaleFactor view (shiftBy r s) = map_sum id (shiftBy r) (stageScaleFactor (drop r view) s)"
  using assms(1) get_shift [OF assms(2)]
  by (cases s)
     (auto simp: stageScaleFactor_def rk_def shiftBy_def map_sum_bind_e add.assoc add.commute add.left_commute)

lemma stageModelOffset_shift:
  assumes "2 \<le> rk s" and "r \<le> length view"
  shows "stageModelOffset view (shiftBy r s) = map_sum id (shiftBy r) (stageModelOffset (drop r view) s)"
proof (cases s)
  case (Pair d i)
  have g: "getFloat32 view (i + r) = getFloat32 (drop r view) i"
    "getFloat32 view (i + r + 4) = getFloat32 (drop r view) (i + 4)"
    "getFloat32 view (i + r + 8) = getFloat32 (drop r view) (i + 8)"
    using get_shift(4) [OF assms(2), of i] get_shift(4) [OF assms(2), of "i + 4"]
      get_shift(4) [OF assms(2), of "i + 8"]
    by (simp_all add: add.assoc add.commute add.left_commute)
  have l: "length view - (i + r) = length view - r - i" by simp
  show ?thesis
    unfolding Pair stageModelOffset_def shiftBy_def prod.case g l
    by (simp add: map_sum_bind_e add.assoc add.commute add.left_commute)
qed

lemma stageVertexCount_shift:
  assumes "2 \<le> rk s" and "r \<le> length view"
  shows "stageVertexCount view (shiftBy r s) = map_sum id (shiftBy r) (stageVertexCount (drop r view) s)"
  using assms(1) get_shift [OF assms(2)]
  by (cases s)
     (auto simp: stageVertexCount_def rk_def shiftBy_def map_sum_bind_e add.assoc add.commute add.left_commute)

lemma stageIndexCount_shift:
  assumes "2 \<le> rk s" and "r \<le> length view"
  shows "stageIndexCount view (shiftBy r s) = map_sum id (shiftBy r) (stageIndexCount (drop r view) s)"
  using assms(1) get_shift [OF assms(2)]
  by (cases s)
     (auto simp: stageIndexCount_def rk_def shiftBy_def map_sum_bind_e add.assoc add.commute add.left_commute)

lemma readVertexData_shift_aux:
  "vw = drop r view \<Longrightarrow> r \<le> length view \<Longrightarrow>
     readVertexData view (shiftBy r s) = map_sum id (shiftBy r) (readVertexData vw s)"
proof (induction vw s rule: readVertexData.induct)
  case (1 vw d i)
  then have l: "length view - (i + r) = length vw - i" by simp
  from "1.prems" have g: "getUint32 view (i + r) = getUint32 vw i"
    by (simp add: get_shift)
  show ?case
  proof (cases "readState d = VertexData \<and> 4 \<le> length vw - i")
    case False
    then show ?thesis
      by (auto simp: shiftBy_def l readVertexData.simps [of view d "i + r"]
          readVertexData.simps [of vw d i])
  next
    case True
    show ?thesis
    proof (cases "vertexBufferSize d \<le> vertexWriteIndex d")
      case full: True
      with True show ?thesis
        by (simp add: shiftBy_def l readVertexData.simps [of view d "i + r"]
            readVertexData.simps [of vw d i])
    next
      case room: False
      show ?thesis
      proof (cases "getUint32 vw i")
        case (Inl e)
        with True room g show ?thesis
          by (simp add: shiftBy_def l readVertexData.simps [of view d "i + r"]
              readVertexData.simps [of vw d i])
      next
        case (Inr vertex)
        let ?d1 = "d\<lparr>vertices := (vertices d)[vertexWriteIndex d := word_of_nat vertex],
               vertexWriteIndex := vertexWriteIndex d + 1\<rparr>"
        from True room g Inr
        have a: "readVertexData view (shiftBy r (d, i)) = readVertexData view (shiftBy r (?d1, i + 4))"
          by (simp add: shiftBy_def l readVertexData.simps [of view d "i + r"])
             (simp add: add.assoc add.commute add.left_commute)
        from True room Inr
        have b: "readVertexData vw (d, i) = readVertexData vw (?d1, i + 4)"
          by (simp add: readVertexData.simps [of vw d i])
        show ?thesis
          unfolding a b by (rule "1.IH" [OF True room "1.prems"])
      qed
    qed
  qed
qed

lemma readVertexData_shift:
  "r \<le> length view \<Longrightarrow>
     readVertexData view (shiftBy r s) = map_sum id (shiftBy r) (readVertexData (drop r view) s)"
  by (rule readVertexData_shift_aux) simp_all

lemma getIndex_shift:
  "r \<le> length view \<Longrightarrow> getIndex n view (i + r) = getIndex n (drop r view) i"
  by (simp add: getIndex_def get_shift)

lemma readIndexData_shift_aux:
  "vw = drop r view \<Longrightarrow> r \<le> length view \<Longrightarrow>
     readIndexData view (shiftBy r s) = map_sum id (shiftBy r) (readIndexData vw s)"
proof (induction vw s rule: readIndexData.induct)
  case (1 vw d i)
  then have l: "length view - (i + r) = length vw - i" by simp
  from "1.prems" have g: "getIndex (indexSize d) view (i + r) = getIndex (indexSize d) vw i"
    by (simp add: getIndex_shift)
  show ?case
  proof (cases "readState d = IndexData \<and> indexSize d \<le> length vw - i
         \<and> indicesWriteIndex d < indexCount d")
    case False
    then show ?thesis
      by (auto simp: shiftBy_def l readIndexData.simps [of view d "i + r"]
          readIndexData.simps [of vw d i])
  next
    case True
    show ?thesis
    proof (cases "getIndex (indexSize d) vw i")
      case (Inl e)
      with True g show ?thesis
        by (simp add: shiftBy_def l readIndexData.simps [of view d "i + r"]
            readIndexData.simps [of vw d i])
    next
      case (Inr index)
      from True g Inr
      have a: "readIndexData view (shiftBy r (d, i)) =
          readIndexData view (shiftBy r (putIndex d index, i + indexSize d))"
        by (simp add: shiftBy_def l readIndexData.simps [of view d "i + r"])
           (simp add: add.assoc add.commute add.left_commute)
      from True Inr
      have b: "readIndexData vw (d, i) = readIndexData vw (putIndex d index, i + indexSize d)"
        by (simp add: readIndexData.simps [of vw d i])
      show ?thesis
        unfolding a b by (rule "1.IH" [OF True "1.prems"])
    qed
  qed
qed

lemma readIndexData_shift:
  "r \<le> length view \<Longrightarrow>
     readIndexData view (shiftBy r s) = map_sum id (shiftBy r) (readIndexData (drop r view) s)"
  by (rule readIndexData_shift_aux) simp_all

lemma seqE_shift:
  assumes "length gs = length fs"
    and "\<And>j s. j < length fs \<Longrightarrow> C s \<Longrightarrow> (fs ! j) (h s) = map_sum id h ((gs ! j) s)"
    and "\<And>j s s'. j < length fs \<Longrightarrow> C s \<Longrightarrow> (gs ! j) s = Inr s' \<Longrightarrow> C s'"
    and "C s"
  shows "seqE fs (h s) = map_sum id h (seqE gs s)"
  using assms
proof (induction fs arbitrary: gs s)
  case Nil
  then show ?case by simp
next
  case (Cons f fs)
  from Cons.prems(1) obtain g gs' where gs: "gs = g # gs'" and len: "length gs' = length fs"
    by (cases gs) auto
  from Cons.prems(2) [of 0 s] Cons.prems(4) gs have f: "f (h s) = map_sum id h (g s)"
    by (simp add: id_def)
  show ?case
  proof (cases "g s")
    case (Inl e)
    with f gs show ?thesis by (simp add: id_def)
  next
    case (Inr s1)
    from Cons.prems(3) [of 0 s s1] Cons.prems(4) gs Inr have c: "C s1" by simp
    have sh: "(fs ! j) (h t) = map_sum id h ((gs' ! j) t)" if "j < length fs" "C t" for j t
      using Cons.prems(2) [of "Suc j" t] that gs by (simp add: id_def)
    have pr: "C t'" if "j < length fs" "C t" "(gs' ! j) t = Inr t'" for j t t'
      using Cons.prems(3) [of "Suc j" t t'] that gs by simp
    have "seqE fs (h s1) = map_sum id h (seqE gs' s1)"
      using len sh pr c by (rule Cons.IH)
    with f gs Inr show ?thesis by (simp add: id_def)
  qed
qed

lemma passStages_shift:
  assumes "j < 8" and "2 \<le> rk s" and "r \<le> length view"
  shows "(passStages view ! j) (shiftBy r s)
     = map_sum id (shiftBy r) ((passStages (drop r view) ! j) s)"
  using assms(1)
proof (cases rule: below_8)
  case 1 then show ?thesis
    by (simp add: passStages_def stageIndexSize_shift [OF assms(2,3)])
next
  case 2 then show ?thesis
    by (simp add: passStages_def stageVertexComponents_shift [OF assms(2,3)])
next
  case 3 then show ?thesis
    by (simp add: passStages_def stageScaleFactor_shift [OF assms(2,3)])
next
  case 4 then show ?thesis
    by (simp add: passStages_def stageModelOffset_shift [OF assms(2,3)])
next
  case 5 then show ?thesis
    by (simp add: passStages_def stageVertexCount_shift [OF assms(2,3)])
next
  case 6 then show ?thesis
    by (simp add: passStages_def stageIndexCount_shift [OF assms(2,3)])
next
  case 7 then show ?thesis
    by (simp add: passStages_def readVertexData_shift [OF assms(3)])
next
  case 8 then show ?thesis
    by (simp add: passStages_def readIndexData_shift [OF assms(3)])
qed

lemma passStages_rank:
  assumes "j < 8" and "(passStages view ! j) s = Inr s'"
  shows "rk s \<le> rk s'"
  using passStages_restart [OF assms, of "[]"] by simp

lemma pass_shift:
  assumes "2 \<le> rk s" and "r \<le> length view"
  shows "seqE (passStages view) (shiftBy r s)
     = map_sum id (shiftBy r) (seqE (passStages (drop r view)) s)"
proof (rule seqE_shift [where C = "\<lambda>s. 2 \<le> rk s", OF _ _ _ assms(1)])
  show "length (passStages (drop r view)) = length (passStages view)" by simp
next
  fix j s assume "j < length (passStages view)" and "2 \<le> rk s"
  then show "(passStages view ! j) (shiftBy r s)
     = map_sum id (shiftBy r) ((passStages (drop r view) ! j) s)"
    using assms(2) by (simp add: passStages_shift)
next
  fix j s s' assume "j < length (passStages view)" and "2 \<le> rk s"
    and "(passStages (drop r view) ! j) s = Inr s'"
  then show "2 \<le> rk s'"
    using passStages_rank [of j "drop r view" s s'] by simp
qed

lemma storeTrailing_shift:
  "r \<le> length view \<Longrightarrow> storeTrailing view (shiftBy r s) = storeTrailing (drop r view) s"
  by (cases s) (auto simp: storeTrailing_def shiftBy_def add.commute)

lemma seqE_fun:
  "seqE [] = Inr" "seqE (f # fs) = (\<lambda>x. bind_e (f x) (seqE fs))"
  by (rule ext, simp)+

lemma seqE_passStages:
  "seqE (passStages view) s =
     bind_e (readHeader view s) (\<lambda>s. bind_e (readVertexData view s) (readIndexData view))"
  by (simp add: passStages_def readHeader_def bind_e_assoc bind_e_Inr_right seqE_fun)

lemma pass_settled:
  assumes "seqE (passStages view) (d, 0) = Inr s"
  shows "settledUpTo 8 view s" and "trailingChunkData (fst s) = trailingChunkData d"
proof -
  from assms obtain s1 s2 where
    h: "readHeader view (d, 0) = Inr s1" and
    vd: "readVertexData view s1 = Inr s2" and
    ix: "readIndexData view s2 = Inr s"
    by (auto simp: seqE_passStages bind_e_eq_Inr)
  show "settledUpTo 8 view s"
    by (intro readIndexData_settled [OF ix] readVertexData_settled [OF vd]
        readHeader_settled [OF h])
  show "trailingChunkData (fst s) = trailingChunkData d"
    using readHeader_keeps_trailing [OF h] readVertexData_keeps [OF vd]
      readIndexData_keeps [OF ix] by simp
qed

lemma settled_rank:
  assumes "settledUpTo 8 view (d, r)" and "0 < r"
  shows "2 \<le> rk (d, r)"
  using assms by (cases "readState d") (auto simp: settledUpTo_def stuck_def rk_def)

lemma bind_e_map_sum:
  "bind_e (map_sum id h m) f = bind_e m (\<lambda>x. f (h x))"
  by (cases m) simp_all

lemma processChunk_append:
  assumes n: "trailingChunkData d \<noteq> Some []" and p: "processChunk d v = Inr d1"
  shows "processChunk d1 w = processChunk d (v @ w)"
proof -
  let ?V = "carryBytes d @ v"
  let ?d0 = "if carryBytes d = [] then d else d\<lparr>trailingChunkData := None\<rparr>"
  from p obtain d3 r where
    pass: "seqE (passStages ?V) (?d0, 0) = Inr (d3, r)" and
    d1: "d1 = storeTrailing ?V (d3, r)"
    by (auto simp: processChunk_seqE bind_e_eq_Inr)
  from n have "trailingChunkData ?d0 = None"
    by (auto simp: carryBytes_def split: option.splits)
  with pass_settled [OF pass] have
    st: "settledUpTo 8 ?V (d3, r)" and t3: "trailingChunkData d3 = None"
    by simp_all
  from st have r: "r \<le> length ?V" by (simp add: settledUpTo_def)
  from t3 have "carryBytes d3 = []" by (simp add: carryBytes_def)
  then have c1: "carryBytes d1 = drop r ?V"
    unfolding d1 by (rule carryBytes_storeTrailing)
  have "(if carryBytes d1 = [] then d1 else d1\<lparr>trailingChunkData := None\<rparr>) = d3"
    using t3 r by (auto simp: d1 storeTrailing_def carryBytes_def)
  then have m1: "(if drop r ?V = [] then d1 else d1\<lparr>trailingChunkData := None\<rparr>) = d3"
    by (simp only: c1)
  have dr: "drop r (?V @ w) = drop r ?V @ w"
    using r by simp
  have "seqE (passStages (?V @ w)) (?d0, 0) = seqE (passStages (?V @ w)) (d3, r)"
    using pass_restart [OF pass, of w] by simp
  also have "\<dots> = map_sum id (shiftBy r) (seqE (passStages (drop r (?V @ w))) (d3, 0))"
  proof (cases "r = 0")
    case True
    then show ?thesis
      by (cases "seqE (passStages (?V @ w)) (d3, 0)") (auto simp: shiftBy_def)
  next
    case False
    with st have "2 \<le> rk (d3, r)" by (simp add: settled_rank)
    then have "2 \<le> rk (d3, 0)" by (simp add: rk_def)
    from pass_shift [OF this, of r "?V @ w"] r show ?thesis
      by (simp add: shiftBy_def)
  qed
  finally have e: "seqE (passStages (?V @ w)) (?d0, 0)
      = map_sum id (shiftBy r) (seqE (passStages (drop r ?V @ w)) (d3, 0))"
    by (simp only: dr)
  have "processChunk d (v @ w) =
      bind_e (seqE (passStages (?V @ w)) (?d0, 0)) (\<lambda>s. Inr (storeTrailing (?V @ w) s))"
    by (simp add: processChunk_seqE)
  also have "\<dots> = bind_e (seqE (passStages (drop r ?V @ w)) (d3, 0))
      (\<lambda>s. Inr (storeTrailing (?V @ w) (shiftBy r s)))"
    by (simp only: e bind_e_map_sum)
  also have "\<dots> = bind_e (seqE (passStages (drop r ?V @ w)) (d3, 0))
      (\<lambda>s. Inr (storeTrailing (drop r ?V @ w) s))"
    using r by (simp add: storeTrailing_shift)
  also have "\<dots> = processChunk d1 w"
    by (simp only: processChunk_seqE [of d1 w] c1 m1)
  finally show ?thesis by simp
qed

subsection \<open>A run over chunks and the pass over their concatenation\<close>

text \<open>A run that does not throw ends in the state that processing all its bytes as one
  chunk gives.\<close>

lemma processChunk_trailing_nonempty:
  assumes "trailingChunkData d \<noteq> Some []" and "processChunk d v = Inr d'"
  shows "trailingChunkData d' \<noteq> Some []"
proof -
  let ?V = "carryBytes d @ v"
  let ?d0 = "if carryBytes d = [] then d else d\<lparr>trailingChunkData := None\<rparr>"
  from assms(2) obtain d3 r where
    pass: "seqE (passStages ?V) (?d0, 0) = Inr (d3, r)" and
    d': "d' = storeTrailing ?V (d3, r)"
    by (auto simp: processChunk_seqE bind_e_eq_Inr)
  from assms(1) have "trailingChunkData ?d0 = None"
    by (auto simp: carryBytes_def split: option.splits)
  with pass_settled(2) [OF pass] have "trailingChunkData d3 = None" by simp
  then show ?thesis by (auto simp: d' storeTrailing_def)
qed

lemma readChunk_concat:
  "fst (readChunk d reader) = Inr d' \<Longrightarrow> trailingChunkData d \<noteq> Some [] \<Longrightarrow>
     stuck (carryBytes d) (d, 0) \<Longrightarrow> processChunk d (concat reader) = Inr d'"
proof (induction reader arbitrary: d)
  case Nil
  then show ?case by (simp add: stuck_empty_chunk)
next
  case (Cons v reader)
  from Cons.prems(1) obtain d1 where
    p: "processChunk d v = Inr d1" and r: "fst (readChunk d1 reader) = Inr d'"
    by (auto simp: fst_readChunk_Cons simp del: readChunk_Cons split: sum.splits)
  have "processChunk d1 (concat reader) = Inr d'"
    using r processChunk_trailing_nonempty [OF Cons.prems(2) p] processChunk_stuck [OF p]
    by (rule Cons.IH)
  with processChunk_append [OF Cons.prems(2) p, of "concat reader"] show ?case by simp
qed

lemma chunk_invariance:
  assumes "fst (readChunk initial reader) = Inr d"
  shows "processChunk initial (concat reader) = Inr d"
proof (rule readChunk_concat [OF assms])
  show "trailingChunkData initial \<noteq> Some []" by (simp add: initial_def)
  show "stuck (carryBytes initial) (initial, 0)" by (rule initial_stuck)
qed

subsection \<open>Runs that cannot throw\<close>

text \<open>
  Past the first two header bytes every read of a pass lies inside the bytes its guard has
  checked, provided the index width is 1, 2 or at least 4. So a run whose first chunk has
  at least two bytes and starts with a width of 1, 2 or 4 never throws, however the rest
  is cut into chunks, and it ends in the state of the pass over the whole stream
  (\<open>decode_any_partition\<close>).
\<close>

lemma get_ok:
  "8 \<le> length view - i \<Longrightarrow> \<exists>x. getFloat64 view i = Inr x"
  "12 \<le> length view - i \<Longrightarrow> \<exists>x y z. getFloat32 view i = Inr x
      \<and> getFloat32 view (i + 4) = Inr y \<and> getFloat32 view (i + 8) = Inr z"
  "4 \<le> length view - i \<Longrightarrow> \<exists>x. getUint32 view i = Inr x"
  by (auto simp: get_defs getUint_def)

lemma getIndex_ok:
  assumes "n \<le> length view - i" and "n = 1 \<or> n = 2 \<or> 4 \<le> n"
  shows "\<exists>x. getIndex n view i = Inr x"
  using assms by (auto simp: getIndex_def get_defs getUint_def)

lemma stageIndexSize_total:
  "widthOk s \<Longrightarrow> \<exists>s'. stageIndexSize view s = Inr s' \<and> widthOk s'"
  by (simp add: stage_skip widthOk_def)

lemma stageVertexComponents_total:
  "widthOk s \<Longrightarrow> \<exists>s'. stageVertexComponents view s = Inr s' \<and> widthOk s'"
  by (simp add: stage_skip widthOk_def)

lemma stageScaleFactor_total:
  assumes "widthOk s"
  shows "\<exists>s'. stageScaleFactor view s = Inr s' \<and> widthOk s'"
proof (cases s)
  case (Pair d i)
  show ?thesis
  proof (cases "readState d = ScaleFactor \<and> 8 \<le> length view - i")
    case False
    with assms Pair show ?thesis by (auto simp: stageScaleFactor_def)
  next
    case True
    with get_ok(1) [of view i] obtain x where "getFloat64 view i = Inr x" by blast
    with True assms Pair show ?thesis
      by (simp add: stageScaleFactor_def widthOk_def rk_def)
  qed
qed

lemma stageModelOffset_total:
  assumes "widthOk s"
  shows "\<exists>s'. stageModelOffset view s = Inr s' \<and> widthOk s'"
proof (cases s)
  case (Pair d i)
  show ?thesis
  proof (cases "readState d = ModelOffset \<and> 12 \<le> length view - i")
    case False
    with assms Pair show ?thesis by (auto simp: stageModelOffset_def)
  next
    case True
    with get_ok(2) [of view i] obtain x y z where "getFloat32 view i = Inr x"
      "getFloat32 view (i + 4) = Inr y" "getFloat32 view (i + 8) = Inr z" by blast
    with True assms Pair show ?thesis
      by (simp add: stageModelOffset_def widthOk_def rk_def)
  qed
qed

lemma stageVertexCount_total:
  assumes "widthOk s"
  shows "\<exists>s'. stageVertexCount view s = Inr s' \<and> widthOk s'"
proof (cases s)
  case (Pair d i)
  show ?thesis
  proof (cases "readState d = VertexCount \<and> 4 \<le> length view - i")
    case False
    with assms Pair show ?thesis by (auto simp: stageVertexCount_def)
  next
    case True
    with get_ok(3) [of view i] obtain x where "getUint32 view i = Inr x" by blast
    with True assms Pair show ?thesis
      by (simp add: stageVertexCount_def widthOk_def rk_def)
  qed
qed

lemma stageIndexCount_total:
  assumes "widthOk s"
  shows "\<exists>s'. stageIndexCount view s = Inr s' \<and> widthOk s'"
proof (cases s)
  case (Pair d i)
  show ?thesis
  proof (cases "readState d = IndexCount \<and> 4 \<le> length view - i")
    case False
    with assms Pair show ?thesis by (auto simp: stageIndexCount_def)
  next
    case True
    with get_ok(3) [of view i] obtain x where "getUint32 view i = Inr x" by blast
    with True assms Pair show ?thesis
      by (simp add: stageIndexCount_def widthOk_def rk_def)
  qed
qed

lemma readVertexData_total:
  "widthOk s \<Longrightarrow> \<exists>s'. readVertexData view s = Inr s' \<and> widthOk s'"
proof (induction view s rule: readVertexData.induct)
  case (1 view d readIndex)
  show ?case
  proof (cases "readState d = VertexData \<and> 4 \<le> length view - readIndex")
    case False
    with "1.prems" show ?thesis
      by (auto simp: readVertexData.simps [of view d readIndex])
  next
    case True
    show ?thesis
    proof (cases "vertexBufferSize d \<le> vertexWriteIndex d")
      case full: True
      with True "1.prems" show ?thesis
        by (auto simp: readVertexData.simps [of view d readIndex] widthOk_def rk_def)
    next
      case room: False
      from True get_ok(3) [of view readIndex]
      obtain vertex where v: "getUint32 view readIndex = Inr vertex"
        by blast
      from "1.prems" True
      have "widthOk (d\<lparr>vertices := (vertices d)[vertexWriteIndex d := word_of_nat vertex],
               vertexWriteIndex := vertexWriteIndex d + 1\<rparr>, readIndex + 4)"
        by (simp add: widthOk_def rk_def)
      from "1.IH" [OF True room this] True room v show ?thesis
        by (simp add: readVertexData.simps [of view d readIndex])
    qed
  qed
qed

lemma widthOk_putIndex:
  "widthOk (d, i) \<Longrightarrow> readState d = IndexData \<Longrightarrow> widthOk (putIndex d x, j)"
  by (auto simp: widthOk_def rk_def putIndex_def Let_def)

lemma readIndexData_total:
  "widthOk s \<Longrightarrow> \<exists>s'. readIndexData view s = Inr s' \<and> widthOk s'"
proof (induction view s rule: readIndexData.induct)
  case (1 view d readIndex)
  show ?case
  proof (cases "readState d = IndexData \<and> indexSize d \<le> length view - readIndex
         \<and> indicesWriteIndex d < indexCount d")
    case False
    with "1.prems" show ?thesis
      by (auto simp: readIndexData.simps [of view d readIndex])
  next
    case True
    with "1.prems" getIndex_ok [of "indexSize d" view readIndex]
    obtain index where v: "getIndex (indexSize d) view readIndex = Inr index"
      by (auto simp: widthOk_def)
    from "1.prems" True have "widthOk (putIndex d index, readIndex + indexSize d)"
      by (simp add: widthOk_putIndex)
    from "1.IH" [OF True this] True v show ?thesis
      by (simp add: readIndexData.simps [of view d readIndex])
  qed
qed

lemma pass_total:
  assumes "widthOk s"
  shows "\<exists>s'. seqE (passStages view) s = Inr s' \<and> widthOk s'"
proof -
  from stageIndexSize_total [OF assms] obtain s1 where
    1: "stageIndexSize view s = Inr s1" "widthOk s1" by blast
  from stageVertexComponents_total [OF this(2)] obtain s2 where
    2: "stageVertexComponents view s1 = Inr s2" "widthOk s2" by blast
  from stageScaleFactor_total [OF this(2)] obtain s3 where
    3: "stageScaleFactor view s2 = Inr s3" "widthOk s3" by blast
  from stageModelOffset_total [OF this(2)] obtain s4 where
    4: "stageModelOffset view s3 = Inr s4" "widthOk s4" by blast
  from stageVertexCount_total [OF this(2)] obtain s5 where
    5: "stageVertexCount view s4 = Inr s5" "widthOk s5" by blast
  from stageIndexCount_total [OF this(2)] obtain s6 where
    6: "stageIndexCount view s5 = Inr s6" "widthOk s6" by blast
  from readVertexData_total [OF this(2)] obtain s7 where
    7: "readVertexData view s6 = Inr s7" "widthOk s7" by blast
  from readIndexData_total [OF this(2)] obtain s8 where
    8: "readIndexData view s7 = Inr s8" "widthOk s8" by blast
  from 1 2 3 4 5 6 7 8 show ?thesis
    by (simp add: passStages_def)
qed

lemma widthOk_trailing [simp]:
  "widthOk (d\<lparr>trailingChunkData := t\<rparr>, i) = widthOk (d, i)"
  by (simp add: widthOk_def rk_def)

lemma processChunk_total:
  assumes "widthOk (d, 0)"
  shows "\<exists>d'. processChunk d v = Inr d' \<and> widthOk (d', 0)"
proof -
  let ?d0 = "if carryBytes d = [] then d else d\<lparr>trailingChunkData := None\<rparr>"
  from assms have "widthOk (?d0, 0)" by simp
  from pass_total [OF this, of "carryBytes d @ v"] obtain d3 r where
    "seqE (passStages (carryBytes d @ v)) (?d0, 0) = Inr (d3, r)" "widthOk (d3, r)"
    by auto
  then show ?thesis
    by (auto simp: processChunk_seqE storeTrailing_def widthOk_def rk_def)
qed

lemma readChunk_total:
  "widthOk (d, 0) \<Longrightarrow> \<exists>d'. fst (readChunk d reader) = Inr d'"
proof (induction reader arbitrary: d)
  case Nil
  then show ?case by simp
next
  case (Cons v reader)
  from processChunk_total [OF Cons.prems, of v] obtain d1 where
    "processChunk d v = Inr d1" "widthOk (d1, 0)" by blast
  with Cons.IH [of d1] show ?case
    by (simp add: fst_readChunk_Cons del: readChunk_Cons)
qed

lemma first_chunk_total:
  assumes "2 \<le> length c" and "c ! 0 \<in> {1, 2, 4}"
  shows "\<exists>d'. processChunk initial c = Inr d' \<and> widthOk (d', 0)"
proof -
  from assms(1) have "c \<noteq> []" by auto
  with assms(1) have c: "take 1 c = [c ! 0]" "take 1 (drop 1 c) = [c ! 1]"
    using take1_drop [of 0 c] take1_drop [of 1 c] by simp_all
  let ?d2 = "initial\<lparr>readState := ScaleFactor, indexSize := unat (c ! 0),
      hasColor := bit (c ! 1) 2, hasNormal := bit (c ! 1) 1, hasUV := bit (c ! 1) 0\<rparr>"
  from assms(1) c have 1: "bind_e (stageIndexSize c (initial, 0)) (stageVertexComponents c)
      = Inr (?d2, 2)"
    by (simp add: stageIndexSize_def stageVertexComponents_def get_defs getUint_def
        initial_def maskBit_unat)
  from assms(2) have "widthOk (?d2, 2)"
    by (auto simp: widthOk_def rk_def)
  from pass_total [OF this, of c] obtain s' where
    2: "seqE (passStages c) (?d2, 2) = Inr s'" and w: "widthOk s'"
    by blast
  from 1 obtain s1 where a: "stageIndexSize c (initial, 0) = Inr s1"
    and b: "stageVertexComponents c s1 = Inr (?d2, 2)"
    by (auto simp: bind_e_eq_Inr)
  have "rk (?d2, 2) = 2" by (simp add: rk_def)
  then have "stageIndexSize c (?d2, 2) = Inr (?d2, 2)"
    "stageVertexComponents c (?d2, 2) = Inr (?d2, 2)"
    by (simp_all add: stage_skip)
  with a b have "seqE (passStages c) (initial, 0) = seqE (passStages c) (?d2, 2)"
    by (simp add: passStages_def)
  with 2 w show ?thesis
    by (cases s') (auto simp: processChunk_seqE storeTrailing_def widthOk_def rk_def)
qed

lemma decode_any_partition:
  assumes "2 \<le> length c" and "c ! 0 \<in> {1, 2, 4}"
  shows "\<exists>d. fst (readChunk initial (c # reader)) = Inr d
     \<and> processChunk initial (c @ concat reader) = Inr d"
proof -
  from first_chunk_total [OF assms] obtain d1 where
    p: "processChunk initial c = Inr d1" and w: "widthOk (d1, 0)" by blast
  from readChunk_total [OF w, of reader] obtain d where "fst (readChunk d1 reader) = Inr d"
    by blast
  with p have f: "fst (readChunk initial (c # reader)) = Inr d"
    by (simp add: fst_readChunk_Cons del: readChunk_Cons)
  from chunk_invariance [OF f] f show ?thesis by simp
qed

lemma one_byte_first_chunk: "processChunk initial [b] = Inl RangeError"
  by (simp add: run_defs)

subsection \<open>Deliveries of an empty mesh\<close>

text \<open>
  A stream that declares no vertex words and no indices never reaches an index read, so
  its index width does not matter: when the first chunk that is not empty has at least
  two bytes the run does not throw, however the stream is cut, and ends past the header
  with empty buffers and every byte after the header in the carry
  (\<open>emptyMesh_any_partition\<close>). When that chunk is a single byte the run throws
  (\<open>one_byte_first_nonempty_chunk\<close>).
\<close>

lemma readHeader_total:
  assumes "length view \<noteq> 1" and "readState d = IndexSize"
  shows "\<exists>s'. readHeader view (d, 0) = Inr s'"
  using assms
  by (auto simp: readHeader_def stage_defs get_defs getUint_def)

lemma rank_consumed: "6 \<le> rank (readState d) \<Longrightarrow> 30 \<le> consumed d"
  by (cases "readState d") (simp_all add: consumed_def)

lemma take_drop_prefix:
  "i + n \<le> length xs \<Longrightarrow> take n (drop i (xs @ ys)) = take n (drop i xs)"
  by simp

lemma prefix_total:
  assumes "length view \<noteq> 1"
    and "le_nat (take 4 (drop 22 (view @ rest))) = 0"
    and "le_nat (take 4 (drop 26 (view @ rest))) = 0"
  shows "\<exists>d. processChunk initial view = Inr d"
proof (cases "30 \<le> length view")
  case True
  then have "take 4 (drop 22 (view @ rest)) = take 4 (drop 22 view)"
    "take 4 (drop 26 (view @ rest)) = take 4 (drop 26 view)"
    by (simp_all add: take_drop_prefix)
  with assms(2,3) emptyMesh_first_chunk [OF True] show ?thesis by auto
next
  case False
  from readHeader_total [OF assms(1), of initial] obtain s1 where
    h: "readHeader view (initial, 0) = Inr s1"
    by (auto simp: initial_def)
  have "settledUpTo 6 view s1"
    using h by (rule readHeader_settled)
  then have l: "snd s1 \<le> length view"
    by (cases s1) (simp add: settledUpTo_def)
  from readHeader_consumed [OF h] initial_partialBuffers
  have "snd s1 = consumed (fst s1)" by simp
  with l False have "consumed (fst s1) < 30" by simp
  with rank_consumed [of "fst s1"] have "\<not> 6 \<le> rank (readState (fst s1))"
    by auto
  then have "rank (readState (fst s1)) < 6"
    by simp
  then have "readState (fst s1) \<noteq> VertexData" "readState (fst s1) \<noteq> IndexData"
    by auto
  then have "readVertexData view s1 = Inr s1" "readIndexData view s1 = Inr s1"
    by (cases s1; simp add: readVertexData.simps readIndexData.simps)+
  with h show ?thesis
    by (simp add: processChunk_def mergeTrailing_eq)
qed

lemma emptyMesh_run_total:
  "processChunk initial pre = Inr d \<Longrightarrow> 2 \<le> length pre \<Longrightarrow>
     le_nat (take 4 (drop 22 (pre @ concat reader))) = 0 \<Longrightarrow>
     le_nat (take 4 (drop 26 (pre @ concat reader))) = 0 \<Longrightarrow>
     \<exists>d'. fst (readChunk d reader) = Inr d'"
proof (induction reader arbitrary: pre d)
  case Nil
  then show ?case by simp
next
  case (Cons v reader)
  have n: "trailingChunkData initial \<noteq> Some []" by (simp add: initial_def)
  from Cons.prems(2) have "length (pre @ v) \<noteq> 1" by simp
  from prefix_total [OF this, of "concat reader"] Cons.prems(3,4)
  obtain d1 where p: "processChunk initial (pre @ v) = Inr d1" by auto
  with processChunk_append [OF n Cons.prems(1), of v] have q: "processChunk d v = Inr d1"
    by simp
  from Cons.prems(2) have "2 \<le> length (pre @ v)" by simp
  from Cons.IH [OF p this] Cons.prems(3,4) obtain d' where
    "fst (readChunk d1 reader) = Inr d'" by auto
  with q show ?case
    by (simp add: fst_readChunk_Cons del: readChunk_Cons)
qed

lemma empty_chunks_first:
  "fst (readChunk initial (replicate k [] @ reader)) = fst (readChunk initial reader)"
proof (induction k)
  case 0
  show ?case by simp
next
  case (Suc k)
  have "processChunk initial [] = Inr initial"
    using initial_stuck by (rule stuck_empty_chunk)
  with Suc show ?case
    by (simp add: fst_readChunk_Cons del: readChunk_Cons)
qed

lemma emptyMesh_any_partition:
  assumes "2 \<le> length c" and "30 \<le> length (c @ concat rest)"
    and "le_nat (take 4 (drop 22 (c @ concat rest))) = 0"
    and "le_nat (take 4 (drop 26 (c @ concat rest))) = 0"
  shows "\<exists>d. fst (readChunk initial (replicate k [] @ c # rest)) = Inr d \<and> emptyMesh d
     \<and> carryBytes d = drop 30 (c @ concat rest)"
proof -
  from assms(1) have "length c \<noteq> 1" by simp
  from prefix_total [OF this assms(3,4)] obtain d1 where
    p: "processChunk initial c = Inr d1" by blast
  from emptyMesh_run_total [OF p assms(1,3,4)] obtain d where
    "fst (readChunk d1 rest) = Inr d" by blast
  with p have f: "fst (readChunk initial (c # rest)) = Inr d"
    by (simp add: fst_readChunk_Cons del: readChunk_Cons)
  from chunk_invariance [OF f] emptyMesh_first_chunk [OF assms(2-4)]
  have "emptyMesh d" "carryBytes d = drop 30 (c @ concat rest)"
    by auto
  with f show ?thesis
    by (simp add: empty_chunks_first del: readChunk_Cons)
qed

lemma one_byte_first_nonempty_chunk:
  "fst (readChunk initial (replicate k [] @ [b] # rest)) = Inl RangeError"
  by (simp add: empty_chunks_first fst_readChunk_Cons one_byte_first_chunk del: readChunk_Cons)

subsection \<open>C1: decoding under repartitioning\<close>

text \<open>
  C1 claims that every partition of a valid stream into chunks decodes to the same
  buffers. At the valid stream \<open>stream52\<close> the run over the single chunk ends in state
  \<open>Done\<close> with all buffers filled, while the run over the same bytes in one-byte chunks
  throws; so does every run whose first chunk is a single byte. The guard of the
  component stage is \<open>chunkSize >= 1\<close>, not \<open>chunkSize - readIndex >= 1\<close> as in every later
  stage, so after the index width was read from a one-byte chunk \<open>getUint8(1)\<close> is outside
  the view. For first chunks of at least two bytes the decoder does what C1 says
  (\<open>decode_any_partition\<close>).
\<close>

theorem C1_one_byte_chunks_rejected:
  "concat (map (\<lambda>b. [b]) stream52) = stream52
   \<and> fst (readChunk initial [stream52]) =
     Inr \<lparr>readState = Done, indexSize = 2, hasColor = False, hasUV = True,
         hasNormal = True, scale = 0x3FF8000000000000, offset = [0, 0, 0],
         vertexCount = 1, vertexBufferSize = 4, vertices = [1, 2, 3, 4],
         vertexWriteIndex = 4, triangleCount = 1, indexCount = 3,
         indices = Uint16Array [0, 1, 258], indicesWriteIndex = 3,
         trailingChunkData = None\<rparr>
   \<and> fst (readChunk initial (map (\<lambda>b. [b]) stream52)) = Inl RangeError
   \<and> (\<forall>b reader. fst (readChunk initial ([b] # reader)) = Inl RangeError)"
  by (simp add: one_byte_first_chunk) (simp add: stream52_def run_defs)

subsection \<open>C3: the 57-byte scenario\<close>

text \<open>
  C3 claims that the 57-byte scenario decodes to indices 0, 1, 0 under the three named
  chunkings. The run over one chunk, the run over the header followed by one-byte
  payload chunks, and the run over the chunks cut at bytes 10 and 24 all resolve with
  the six vertex words but with the index buffer still 0, 0, 0: the three index bytes
  stay in the carry and \<open>readState\<close> is still \<open>VertexData\<close> at the end of the stream.
\<close>

theorem C3_indices_left_zero:
  "loadBOBJ \<lparr>ok = True, body = Some [stream57]\<rparr> =
     Inr \<lparr>vao = ([1, 2, 3, 4, 5, 6], Uint8Array [0, 0, 0]), m_vertexCount = 2,
        m_indexType = UNSIGNED_BYTE, m_indexCount = 3, m_triangleCount = 1,
        m_scale = 0x3FF8000000000000, m_offset = [0, 0, 0],
        m_hasColor = False, m_hasUV = True, m_hasNormal = False\<rparr>
   \<and> loadBOBJ \<lparr>ok = True, body = Some (take 30 stream57 # map (\<lambda>b. [b]) (drop 30 stream57))\<rparr> =
       loadBOBJ \<lparr>ok = True, body = Some [stream57]\<rparr>
   \<and> loadBOBJ \<lparr>ok = True,
        body = Some [take 10 stream57, take 14 (drop 10 stream57), drop 24 stream57]\<rparr> =
       loadBOBJ \<lparr>ok = True, body = Some [stream57]\<rparr>
   \<and> map_sum id readState (fst (readChunk initial [stream57])) = Inr VertexData"
  by (simp add: stream57_def run_defs)

subsection \<open>C4: leaving the vertex stage\<close>

text \<open>
  C4 claims that the vertex stage is left as soon as the write index reaches the declared
  count, without four further bytes being available. With no vertex words declared and
  three index bytes behind the header the pass ends in state \<open>VertexData\<close> with no index
  decoded; with four index bytes it moves on and decodes them in the same pass.
\<close>

theorem C4_no_transition_below_four_bytes:
  "processChunk initial (header 1 0 0 3 @ [7, 8, 9]) =
     Inr \<lparr>readState = VertexData, indexSize = 1, hasColor = False,
         hasUV = False, hasNormal = False, scale = 0x3FF8000000000000,
         offset = [0, 0, 0], vertexCount = 0, vertexBufferSize = 0,
         vertices = [], vertexWriteIndex = 0, triangleCount = 1,
         indexCount = 3, indices = Uint8Array [0, 0, 0],
         indicesWriteIndex = 0, trailingChunkData = Some [7, 8, 9]\<rparr>
   \<and> processChunk initial (header 1 0 0 4 @ [7, 8, 9, 10]) =
     Inr \<lparr>readState = Done, indexSize = 1, hasColor = False, hasUV = False,
         hasNormal = False, scale = 0x3FF8000000000000, offset = [0, 0, 0],
         vertexCount = 0, vertexBufferSize = 0, vertices = [],
         vertexWriteIndex = 0, triangleCount = 4 / 3, indexCount = 4,
         indices = Uint8Array [7, 8, 9, 10], indicesWriteIndex = 4,
         trailingChunkData = None\<rparr>"
  by (simp add: run_defs)

subsection \<open>C6: the carry between chunks\<close>

text \<open>
  C6 claims that in every reachable state the carry is shorter than the field the decode
  state waits for. A header that declares no vertex words and no indices, followed by four
  more bytes in the same chunk, leaves the decoder in state \<open>IndexData\<close> with index
  width 1 and all four bytes in the carry: once every declared index is written nothing
  consumes further bytes, and the whole rest becomes the carry.
\<close>

theorem C6_carry_exceeds_pending_width:
  "map_sum id (\<lambda>d. (readState d, pendingWidth d, carryBytes d, carryBelowPending d))
     (fst (readChunk initial [header 1 0 0 0 @ [9, 9, 9, 9]])) =
   Inr (IndexData, Some 1, [9, 9, 9, 9], False)"
  by (simp add: run_defs pendingWidth_def carryBytes_def carryBelowPending_def)

text \<open>
  C6 as amended: after any chunk sequence processed without exception the carry is
  shorter than the field the decode state waits for, in every decode state except
  \<open>IndexData\<close> of a stream that declares no indices (in state \<open>Done\<close> no field is pending
  and the bound says nothing). The carry is the bytes received and not yet decoded: the
  stream so far without its first \<open>consumed d\<close> bytes, and processing a chunk replaces it by
  the old carry followed by the chunk, without the bytes decoded in that pass. In state
  \<open>Done\<close>, and in \<open>IndexData\<close> when no index is declared, nothing is decoded any more: the
  decoder stays as it is and every further chunk is added whole to the carry.
\<close>

theorem C6_carry_below_pending_field:
  assumes "fst (readChunk initial reader) = Inr d"
  shows "(\<not> (readState d = IndexData \<and> indexCount d = 0) \<longrightarrow> carryBelowPending d)
       \<and> consumed d \<le> length (concat reader)
       \<and> carryBytes d = drop (consumed d) (concat reader)
       \<and> (\<forall>v d'. processChunk d v = Inr d' \<longrightarrow>
            consumed d \<le> consumed d'
            \<and> consumed d' - consumed d \<le> length (carryBytes d @ v)
            \<and> carryBytes d' = drop (consumed d' - consumed d) (carryBytes d @ v))
       \<and> (readState d = Done \<or> readState d = IndexData \<and> indexCount d = 0 \<longrightarrow>
            (\<forall>v. \<exists>d'. processChunk d v = Inr d'
               \<and> d' = d\<lparr>trailingChunkData := trailingChunkData d'\<rparr>
               \<and> carryBytes d' = carryBytes d @ v))"
proof -
  have s: "stuck (carryBytes d) (d, 0)"
    using assms by (rule readChunk_stuck) (rule initial_stuck)
  have b: "partialBuffers d"
    using assms initial_partialBuffers by (rule readChunk_partialBuffers)
  from s b have 1: "\<not> (readState d = IndexData \<and> indexCount d = 0) \<longrightarrow> carryBelowPending d"
    by (cases "readState d")
      (auto simp: stuck_def carryBelowPending_def pendingWidth_def partialBuffers_def)
  from readChunk_consumed [OF assms initial_partialBuffers]
  have 2: "consumed d \<le> length (concat reader)"
    "carryBytes d = drop (consumed d) (concat reader)"
    by simp_all
  have 3: "\<forall>v d'. processChunk d v = Inr d' \<longrightarrow>
            consumed d \<le> consumed d'
            \<and> consumed d' - consumed d \<le> length (carryBytes d @ v)
            \<and> carryBytes d' = drop (consumed d' - consumed d) (carryBytes d @ v)"
    using processChunk_consumed [OF _ b] by blast
  have 4: "readState d = Done \<or> readState d = IndexData \<and> indexCount d = 0 \<longrightarrow>
            (\<forall>v. \<exists>d'. processChunk d v = Inr d'
               \<and> d' = d\<lparr>trailingChunkData := trailingChunkData d'\<rparr>
               \<and> carryBytes d' = carryBytes d @ v)"
    using exhausted_processChunk [of d] by simp
  from 1 2 3 4 show ?thesis by blast
qed

text \<open>The hypotheses of C6 as amended at three runs. After the first 35 bytes of
  \<open>stream57\<close> one byte of a vertex word is carried, and five more bytes leave two in the
  carry. After \<open>stream34\<close> the state is \<open>Done\<close>, and after an empty-mesh header with four
  more bytes it is \<open>IndexData\<close> with no index declared; in both a further chunk goes to
  the carry whole.\<close>

theorem C6_carry_below_pending_field_witness:
  "fst (readChunk initial [take 35 stream57]) = Inr after35
   \<and> readState after35 = VertexData
   \<and> pendingWidth after35 = Some 4 \<and> carryBelowPending after35
   \<and> consumed after35 = 34 \<and> carryBytes after35 = [2]
   \<and> carryBytes after35 = drop (consumed after35) (concat [take 35 stream57])
   \<and> processChunk after35 [0, 0, 0, 3, 0] = Inr after40
   \<and> consumed after40 = 38 \<and> carryBytes after40 = [3, 0]
   \<and> carryBytes after40 = drop (consumed after40 - consumed after35) (carryBytes after35 @ [0, 0, 0, 3, 0])
   \<and> fst (readChunk initial [stream34]) = Inr after34 \<and> readState after34 = Done
   \<and> (\<exists>d'. processChunk after34 [5, 6] = Inr d' \<and> carryBytes d' = carryBytes after34 @ [5, 6])
   \<and> (\<exists>d. fst (readChunk initial [header 1 0 0 0 @ [9, 9, 9, 9]]) = Inr d
        \<and> readState d = IndexData \<and> indexCount d = 0 \<and> carryBytes d = [9, 9, 9, 9]
        \<and> (\<exists>d'. processChunk d [8] = Inr d' \<and> carryBytes d' = [9, 9, 9, 9, 8]))"
proof -
  have s: "readState after35 = VertexData"
    "pendingWidth after35 = Some 4" "consumed after35 = 34" "carryBytes after35 = [2]"
    "consumed after40 = 38" "carryBytes after40 = [3, 0]" "readState after34 = Done"
    by (simp_all add: after35_def after40_def after34_def pendingWidth_def carryBytes_def
        consumed_def)
  have n: "\<not> (readState after35 = IndexData \<and> indexCount after35 = 0)"
    by (simp add: after35_def)
  from C6_carry_below_pending_field [OF after35_run] n after40_run
  have a: "carryBelowPending after35"
    "carryBytes after35 = drop (consumed after35) (concat [take 35 stream57])"
    "carryBytes after40 = drop (consumed after40 - consumed after35)
       (carryBytes after35 @ [0, 0, 0, 3, 0])"
    by blast+
  from C6_carry_below_pending_field [OF stream34_run] s(7)
  have b: "\<exists>d'. processChunk after34 [5, 6] = Inr d'
      \<and> carryBytes d' = carryBytes after34 @ [5, 6]"
    by blast
  from header_then_four_run obtain d where
    d: "fst (readChunk initial [header 1 0 0 0 @ [9, 9, 9, 9]]) = Inr d"
    "readState d = IndexData" "indexCount d = 0" "carryBytes d = [9, 9, 9, 9]"
    by blast
  from C6_carry_below_pending_field [OF d(1)] d(2,3)
  have "\<exists>d'. processChunk d [8] = Inr d' \<and> carryBytes d' = carryBytes d @ [8]"
    by blast
  with d have c: "\<exists>d. fst (readChunk initial [header 1 0 0 0 @ [9, 9, 9, 9]]) = Inr d
        \<and> readState d = IndexData \<and> indexCount d = 0 \<and> carryBytes d = [9, 9, 9, 9]
        \<and> (\<exists>d'. processChunk d [8] = Inr d' \<and> carryBytes d' = [9, 9, 9, 9, 8])"
    by auto
  from after35_run after40_run stream34_run s a b c show ?thesis
    by blast
qed

subsection \<open>C10: the empty chunk\<close>

text \<open>
  C10: in every state the decoder reaches from \<open>initial\<close> over a chunk sequence, processing
  a chunk of length zero returns the same state: decode state, header fields, buffers,
  write indices and carry are unchanged, and no exception is thrown.
\<close>

theorem C10_empty_chunk_is_identity:
  assumes "fst (readChunk initial reader) = Inr d"
  shows "processChunk d [] = Inr d"
  using assms by (intro stuck_empty_chunk readChunk_stuck [OF _ initial_stuck])

text \<open>The hypothesis of C10 holds after the first 35 bytes of \<open>stream57\<close>, with a carry
  that is not empty.\<close>

theorem C10_empty_chunk_is_identity_witness:
  "fst (readChunk initial [take 35 stream57]) = Inr after35
   \<and> carryBytes after35 = [2] \<and> processChunk after35 [] = Inr after35"
  using after35_run C10_empty_chunk_is_identity [OF after35_run]
  by (simp add: carryBytes_def after35_def)

subsection \<open>C2: end of stream before \<open>Done\<close>\<close>

text \<open>
  C2 claims that a stream that ends while the decode state is not \<open>Done\<close> makes the
  decode fail, and never resolve with partial buffers. A stream that is only the header
  of the 57-byte scenario ends in state \<open>VertexData\<close>, and \<open>loadBOBJ\<close> resolves, with six
  zero vertex words and three zero indices: \<open>appendChunks\<close> simply returns when the read
  reports \<open>done\<close> (line 156), and the promise chain goes on to build the model.
\<close>

theorem C2_header_only_resolves:
  "loadBOBJ \<lparr>ok = True, body = Some [header 1 1 6 3]\<rparr> =
     Inr \<lparr>vao = ([0, 0, 0, 0, 0, 0], Uint8Array [0, 0, 0]), m_vertexCount = 2,
        m_indexType = UNSIGNED_BYTE, m_indexCount = 3, m_triangleCount = 1,
        m_scale = 0x3FF8000000000000, m_offset = [0, 0, 0],
        m_hasColor = False, m_hasUV = True, m_hasNormal = False\<rparr>
   \<and> map_sum id readState (fst (readChunk initial [header 1 1 6 3])) = Inr VertexData"
  by (simp add: run_defs)

text \<open>
  C2 as amended: when the stream ends after a chunk sequence processed without exception
  and the decode state is not \<open>Done\<close>, \<open>loadBOBJ\<close> resolves with the decoder's variables
  as they stand. Once the header is complete the buffers have their declared lengths,
  every slot at or beyond the write index is zero, and at least one declared index is
  missing unless none was declared.
\<close>

theorem C2_end_of_stream_resolves_partial:
  assumes "fst (readChunk initial reader) = Inr d" and "readState d \<noteq> Done"
  shows "loadBOBJ \<lparr>ok = True, body = Some reader\<rparr> = Inr (resolveWith d)
     \<and> (6 \<le> rank (readState d) \<longrightarrow>
          length (vertices d) = vertexBufferSize d
          \<and> drop (vertexWriteIndex d) (vertices d)
              = replicate (vertexBufferSize d - vertexWriteIndex d) 0
          \<and> length (elements (indices d)) = indexCount d
          \<and> drop (indicesWriteIndex d) (elements (indices d))
              = replicate (indexCount d - indicesWriteIndex d) 0
          \<and> (indicesWriteIndex d < indexCount d \<or> indexCount d = 0))"
proof -
  have "partialBuffers d"
    using assms(1) initial_partialBuffers by (rule readChunk_partialBuffers)
  with assms(2) have "6 \<le> rank (readState d) \<longrightarrow>
          length (vertices d) = vertexBufferSize d
          \<and> drop (vertexWriteIndex d) (vertices d)
              = replicate (vertexBufferSize d - vertexWriteIndex d) 0
          \<and> length (elements (indices d)) = indexCount d
          \<and> drop (indicesWriteIndex d) (elements (indices d))
              = replicate (indexCount d - indicesWriteIndex d) 0
          \<and> (indicesWriteIndex d < indexCount d \<or> indexCount d = 0)"
    by (cases "readState d") (auto simp: partialBuffers_def)
  with assms(1) show ?thesis
    by (simp add: loadBOBJ_def readChunks_def)
qed

text \<open>The hypotheses of C2 as amended hold for the first 35 bytes of \<open>stream57\<close>: one vertex
  word is written, five slots and all indices are still zero.\<close>

theorem C2_end_of_stream_resolves_partial_witness:
  "fst (readChunk initial [take 35 stream57]) = Inr after35 \<and> readState after35 \<noteq> Done
   \<and> loadBOBJ \<lparr>ok = True, body = Some [take 35 stream57]\<rparr> = Inr (resolveWith after35)
   \<and> vertices after35 = [1, 0, 0, 0, 0, 0]
   \<and> drop (vertexWriteIndex after35) (vertices after35) = replicate 5 0
   \<and> elements (indices after35) = replicate 3 0
   \<and> indicesWriteIndex after35 < indexCount after35"
proof -
  have s: "readState after35 \<noteq> Done" "6 \<le> rank (readState after35)"
    "vertexBufferSize after35 - vertexWriteIndex after35 = 5"
    "vertices after35 = [1, 0, 0, 0, 0, 0]" "elements (indices after35) = replicate 3 0"
    "indicesWriteIndex after35 < indexCount after35"
    by (simp_all add: after35_def)
  from C2_end_of_stream_resolves_partial [OF after35_run s(1)] s after35_run
  show ?thesis by simp
qed

subsection \<open>C7: reading after \<open>Done\<close>\<close>

text \<open>
  C7 claims that no read is issued once the decode state is \<open>Done\<close>. The second component
  of \<open>readChunk\<close> lists the decode state at each \<open>reader.read()\<close>: after the valid stream
  \<open>stream34\<close> has brought the decoder to \<open>Done\<close> a further read is issued, and when the
  source has one more chunk a third one.
\<close>

theorem C7_reads_after_Done:
  "snd (readChunk initial [stream34]) = [IndexSize, Done]
   \<and> snd (readChunk initial [stream34, [5]]) = [IndexSize, Done, Done]"
  by (simp add: stream34_def run_defs)

text \<open>
  C7 as amended: a run that ends without exception has issued one read per chunk of the
  source and one more, which reported the end of the stream, whatever the decode states
  were. From state \<open>Done\<close> every remaining chunk is still requested; such a chunk changes
  nothing but the carry, which collects all its bytes, and the run ends without exception
  when the source reports the end of the stream.
\<close>

theorem C7_reads_until_end_of_stream:
  "(fst (readChunk d0 reader) = Inr d1 \<longrightarrow> length (snd (readChunk d0 reader)) = Suc (length reader))
   \<and> (readState d = Done \<longrightarrow>
        snd (readChunk d reader) = replicate (Suc (length reader)) Done
        \<and> (\<exists>d'. fst (readChunk d reader) = Inr d' \<and> readState d' = Done
              \<and> d' = d\<lparr>trailingChunkData := trailingChunkData d'\<rparr>
              \<and> carryBytes d' = carryBytes d @ concat reader))"
  using readChunk_reads Done_readChunk by blast

text \<open>Both hypotheses of C7 as amended at concrete runs: the run over \<open>stream34\<close> and one
  more chunk, and the run from the state \<open>Done\<close> that \<open>stream34\<close> leaves.\<close>

theorem C7_reads_until_end_of_stream_witness:
  "fst (readChunk initial [stream34, [5]]) = Inr (after34\<lparr>trailingChunkData := Some [5]\<rparr>)
   \<and> length (snd (readChunk initial [stream34, [5]])) = 3
   \<and> readState after34 = Done
   \<and> snd (readChunk after34 [[5], [6, 7]]) = [Done, Done, Done]
   \<and> map_sum id carryBytes (fst (readChunk after34 [[5], [6, 7]])) = Inr [5, 6, 7]"
proof -
  have h: "fst (readChunk initial [stream34, [5]]) = Inr (after34\<lparr>trailingChunkData := Some [5]\<rparr>)"
    by (simp add: after34_run) (simp add: after34_def run_defs)
  have s: "readState after34 = Done" "carryBytes after34 = []"
    by (simp_all add: after34_def carryBytes_def)
  from C7_reads_until_end_of_stream [of initial "[stream34, [5]]" _ after34] h
  have a: "length (snd (readChunk initial [stream34, [5]])) = 3" by simp
  from C7_reads_until_end_of_stream [of after34 "[[5], [6, 7]]" _ after34] s
  obtain d' where "snd (readChunk after34 [[5], [6, 7]]) = replicate 3 Done"
    and "fst (readChunk after34 [[5], [6, 7]]) = Inr d'" and "carryBytes d' = [5, 6, 7]"
    by auto
  with h a s show ?thesis by simp
qed

subsection \<open>C5: an index width other than 1, 2 or 4\<close>

text \<open>
  C5 claims that a first byte outside 1, 2, 4 makes the decode fail with a malformed
  header error. A stream with first byte 7, no vertex words and one index resolves: both
  \<open>switch\<close> statements on \<open>indexSize\<close> have a \<open>default\<close> branch, so the index buffer is a
  \<open>Uint32Array\<close>, the index is read with \<open>getUint32\<close> (here \<open>0x04030201\<close>) and the index
  type is \<open>UNSIGNED_INT\<close>.
\<close>

theorem C5_width_seven_accepted:
  "loadBOBJ \<lparr>ok = True, body = Some [header 7 0 0 1 @ [1, 2, 3, 4, 5, 6, 7]]\<rparr> =
     Inr \<lparr>vao = ([], Uint32Array [0x04030201]), m_vertexCount = 0,
        m_indexType = UNSIGNED_INT, m_indexCount = 1, m_triangleCount = 1 / 3,
        m_scale = 0x3FF8000000000000, m_offset = [0, 0, 0],
        m_hasColor = False, m_hasUV = False, m_hasNormal = False\<rparr>"
  by (simp add: run_defs)

text \<open>
  C5 as amended: for every first chunk that holds the 30-byte header and whose first byte
  is not 1, 2 or 4, the header stages end without error in state \<open>VertexData\<close>: the byte is
  kept as \<open>indexSize\<close>, the index buffer is a \<open>Uint32Array\<close> of \<open>indexCount\<close> zeros, every
  index is read with \<open>getUint32\<close>, and the index type the model resolves with is
  \<open>UNSIGNED_INT\<close>.
\<close>

theorem C5_unrecognised_width_falls_back:
  assumes "30 \<le> length c" and "c ! 0 \<notin> {1, 2, 4}"
  shows "\<exists>d. readHeader c (initial, 0) = Inr (d, 30) \<and> readState d = VertexData
     \<and> indexSize d = unat (c ! 0)
     \<and> indices d = Uint32Array (replicate (indexCount d) 0)
     \<and> (\<forall>view i. getIndex (indexSize d) view i = getUint32 view i)
     \<and> m_indexType (resolveWith d) = UNSIGNED_INT"
proof -
  from assms(2) have "unat (c ! 0) \<noteq> 1" "unat (c ! 0) \<noteq> 2"
    by (simp_all add: unat_byte_eq)
  then show ?thesis
    by (simp add: readHeader_full [OF assms(1)] newIndices_def getIndex_def resolveWith_def)
qed

text \<open>The hypotheses of C5 as amended hold for a header with first byte 7.\<close>

theorem C5_unrecognised_width_falls_back_witness:
  "30 \<le> length (header 7 0 0 1) \<and> header 7 0 0 1 ! 0 \<notin> {1, 2, 4}
   \<and> (\<exists>d. readHeader (header 7 0 0 1) (initial, 0) = Inr (d, 30) \<and> readState d = VertexData
     \<and> indexSize d = 7 \<and> indices d = Uint32Array [0]
     \<and> getIndex (indexSize d) [1, 2, 3, 4, 5, 6, 7] 0 = getUint32 [1, 2, 3, 4, 5, 6, 7] 0
     \<and> m_indexType (resolveWith d) = UNSIGNED_INT)"
proof -
  have l: "30 \<le> length (header 7 0 0 1)" and w: "header 7 0 0 1 ! 0 \<notin> {1, 2, 4}"
    by (simp_all add: header_def)
  from C5_unrecognised_width_falls_back [OF l w] obtain d where
    "readHeader (header 7 0 0 1) (initial, 0) = Inr (d, 30)" "readState d = VertexData"
    "indexSize d = unat (header 7 0 0 1 ! 0)"
    "indices d = Uint32Array (replicate (indexCount d) 0)"
    "\<forall>view i. getIndex (indexSize d) view i = getUint32 view i"
    "m_indexType (resolveWith d) = UNSIGNED_INT"
    by blast
  moreover from this(1) have "indexCount d = 1"
    by (auto simp: readHeader_full [OF l]) (simp add: header_def)
  ultimately have "readHeader (header 7 0 0 1) (initial, 0) = Inr (d, 30) \<and> readState d = VertexData
     \<and> indexSize d = 7 \<and> indices d = Uint32Array [0]
     \<and> getIndex (indexSize d) [1, 2, 3, 4, 5, 6, 7] 0 = getUint32 [1, 2, 3, 4, 5, 6, 7] 0
     \<and> m_indexType (resolveWith d) = UNSIGNED_INT"
    by (simp add: header_def)
  with l w show ?thesis by blast
qed

subsection \<open>C8: the wire format of the header\<close>

text \<open>
  C8: when the first chunk has at least 30 bytes, the header stages (lines 170 to 237)
  consume exactly 30 bytes from the initial state and decode: byte 0 as the index width;
  bits 0, 1 and 2 of byte 1 as \<open>hasUV\<close>, \<open>hasNormal\<close> and \<open>hasColor\<close>; bytes 2 to 9 as the
  little-endian bit pattern of the scale; bytes 10 to 21 as the three little-endian bit
  patterns of the offset; bytes 22 to 25 and 26 to 29 as the little-endian vertex word
  count and index count; and the vertex count as the vertex word count divided by the
  stride (4 with normal and UV, 3 with exactly one, 2 with neither). The payload loops
  that follow in the same pass keep these header fields.
\<close>

theorem C8_header_wire_format:
  assumes "30 \<le> length c"
  shows "\<exists>d. readHeader c (initial, 0) = Inr (d, 30)
     \<and> indexSize d = unat (c ! 0)
     \<and> hasUV d = bit (c ! 1) 0 \<and> hasNormal d = bit (c ! 1) 1 \<and> hasColor d = bit (c ! 1) 2
     \<and> scale d = word_of_nat (le_nat (take 8 (drop 2 c)))
     \<and> offset d = [word_of_nat (le_nat (take 4 (drop 10 c))),
                    word_of_nat (le_nat (take 4 (drop 14 c))),
                    word_of_nat (le_nat (take 4 (drop 18 c)))]
     \<and> vertexBufferSize d =
         unat (c ! 22) + 256 * unat (c ! 23) + 65536 * unat (c ! 24) + 16777216 * unat (c ! 25)
     \<and> indexCount d =
         unat (c ! 26) + 256 * unat (c ! 27) + 65536 * unat (c ! 28) + 16777216 * unat (c ! 29)
     \<and> vertexCount d = of_nat (vertexBufferSize d)
           / (if hasNormal d \<and> hasUV d then 4 else if hasNormal d \<or> hasUV d then 3 else 2)
     \<and> (\<forall>d'. processChunk initial c = Inr d' \<longrightarrow> headerFields d' = headerFields d)"
proof -
  define d where "d = initial\<lparr>readState := VertexData,
           indexSize := unat (c ! 0),
           hasColor := bit (c ! 1) 2, hasNormal := bit (c ! 1) 1, hasUV := bit (c ! 1) 0,
           scale := word_of_nat (le_nat (take 8 (drop 2 c))),
           offset := [word_of_nat (le_nat (take 4 (drop 10 c))),
                      word_of_nat (le_nat (take 4 (drop 14 c))),
                      word_of_nat (le_nat (take 4 (drop 18 c)))],
           vertexBufferSize := le_nat (take 4 (drop 22 c)),
           vertexCount := of_nat (le_nat (take 4 (drop 22 c)))
              / (if bit (c ! 1) 0 \<and> bit (c ! 1) 1 then 4
                 else if bit (c ! 1) 0 \<or> bit (c ! 1) 1 then 3 else 2),
           vertices := replicate (le_nat (take 4 (drop 22 c))) 0,
           indexCount := le_nat (take 4 (drop 26 c)),
           triangleCount := of_nat (le_nat (take 4 (drop 26 c))) / 3,
           indices := newIndices (unat (c ! 0)) (le_nat (take 4 (drop 26 c)))\<rparr>"
  have h: "readHeader c (initial, 0) = Inr (d, 30)"
    unfolding d_def by (rule readHeader_full [OF assms])
  from assms have "22 + 4 \<le> length c" "26 + 4 \<le> length c" by simp_all
  note t = take4_drop [OF this(1)] take4_drop [OF this(2)]
  have a: "indexSize d = unat (c ! 0)"
    "hasUV d = bit (c ! 1) 0" "hasNormal d = bit (c ! 1) 1" "hasColor d = bit (c ! 1) 2"
    "scale d = word_of_nat (le_nat (take 8 (drop 2 c)))"
    "offset d = [word_of_nat (le_nat (take 4 (drop 10 c))),
                    word_of_nat (le_nat (take 4 (drop 14 c))),
                    word_of_nat (le_nat (take 4 (drop 18 c)))]"
    by (simp_all add: d_def)
  have b: "vertexBufferSize d =
         unat (c ! 22) + 256 * unat (c ! 23) + 65536 * unat (c ! 24) + 16777216 * unat (c ! 25)"
    "indexCount d =
         unat (c ! 26) + 256 * unat (c ! 27) + 65536 * unat (c ! 28) + 16777216 * unat (c ! 29)"
    by (simp_all add: d_def t)
  have v: "vertexCount d = of_nat (vertexBufferSize d)
           / (if hasNormal d \<and> hasUV d then 4 else if hasNormal d \<or> hasUV d then 3 else 2)"
    by (auto simp: d_def)
  have p: "\<forall>d'. processChunk initial c = Inr d' \<longrightarrow> headerFields d' = headerFields d"
    using first_chunk_headerFields [OF h] by blast
  from h a b v p show ?thesis by blast
qed

text \<open>For \<open>stream57\<close> the hypothesis of C8 holds and the header fields are those of the
  scenario.\<close>

theorem C8_header_wire_format_witness:
  "30 \<le> length stream57
   \<and> (\<exists>d. readHeader stream57 (initial, 0) = Inr (d, 30)
        \<and> indexSize d = 1 \<and> hasUV d \<and> \<not> hasNormal d \<and> \<not> hasColor d
        \<and> scale d = 0x3FF8000000000000 \<and> offset d = [0, 0, 0]
        \<and> vertexBufferSize d = 6 \<and> indexCount d = 3 \<and> vertexCount d = 2
        \<and> (\<exists>d'. processChunk initial stream57 = Inr d' \<and> headerFields d' = headerFields d))"
proof -
  have l: "30 \<le> length stream57"
    by (simp add: stream57_def header_def)
  have p: "\<exists>d'. processChunk initial stream57 = Inr d'"
    by (simp add: stream57_def run_defs)
  from C8_header_wire_format [OF l] obtain d where
    "readHeader stream57 (initial, 0) = Inr (d, 30)"
    "indexSize d = unat (stream57 ! 0)"
    "hasUV d = bit (stream57 ! 1) 0" "hasNormal d = bit (stream57 ! 1) 1"
    "hasColor d = bit (stream57 ! 1) 2"
    "scale d = word_of_nat (le_nat (take 8 (drop 2 stream57)))"
    "offset d = [word_of_nat (le_nat (take 4 (drop 10 stream57))),
                    word_of_nat (le_nat (take 4 (drop 14 stream57))),
                    word_of_nat (le_nat (take 4 (drop 18 stream57)))]"
    "vertexBufferSize d = unat (stream57 ! 22) + 256 * unat (stream57 ! 23)
        + 65536 * unat (stream57 ! 24) + 16777216 * unat (stream57 ! 25)"
    "indexCount d = unat (stream57 ! 26) + 256 * unat (stream57 ! 27)
        + 65536 * unat (stream57 ! 28) + 16777216 * unat (stream57 ! 29)"
    "vertexCount d = of_nat (vertexBufferSize d)
           / (if hasNormal d \<and> hasUV d then 4 else if hasNormal d \<or> hasUV d then 3 else 2)"
    "\<forall>d'. processChunk initial stream57 = Inr d' \<longrightarrow> headerFields d' = headerFields d"
    by blast
  then have "readHeader stream57 (initial, 0) = Inr (d, 30)
        \<and> indexSize d = 1 \<and> hasUV d \<and> \<not> hasNormal d \<and> \<not> hasColor d
        \<and> scale d = 0x3FF8000000000000 \<and> offset d = [0, 0, 0]
        \<and> vertexBufferSize d = 6 \<and> indexCount d = 3 \<and> vertexCount d = 2
        \<and> (\<exists>d'. processChunk initial stream57 = Inr d' \<and> headerFields d' = headerFields d)"
    using p by (auto simp: stream57_def header_def)
  with l show ?thesis by blast
qed

subsection \<open>C9: the empty mesh\<close>

text \<open>
  C9 claims that every stream declaring no vertex words and no indices decodes to empty
  buffers. Delivered as one chunk the 30-byte header \<open>header 1 0 0 0\<close> does: the run ends
  without exception with both buffers empty and nothing in the carry. Delivered as its
  first byte followed by the rest, the run throws and \<open>loadBOBJ\<close> rejects, and so it does
  for every empty-mesh header whose first byte comes alone: the guard of the component
  stage is \<open>chunkSize >= 1\<close>, not \<open>chunkSize - readIndex >= 1\<close> as in every later stage, so
  \<open>getUint8(1)\<close> is outside the one-byte view. For every other delivery, where the first
  chunk that is not empty has at least two bytes, the decoder does what C9 says
  (\<open>emptyMesh_any_partition\<close>).
\<close>

theorem C9_empty_mesh_one_byte_chunk_rejected:
  "[1] @ drop 1 (header 1 0 0 0) = header 1 0 0 0
   \<and> map_sum id (\<lambda>d. (vertices d, elements (indices d), carryBytes d))
       (fst (readChunk initial [header 1 0 0 0])) = Inr ([], [], [])
   \<and> fst (readChunk initial [[1], drop 1 (header 1 0 0 0)]) = Inl RangeError
   \<and> loadBOBJ \<lparr>ok = True, body = Some [[1], drop 1 (header 1 0 0 0)]\<rparr> = Inl RangeError
   \<and> (\<forall>w m reader. loadBOBJ \<lparr>ok = True, body = Some ([w] # drop 1 (header w m 0 0) # reader)\<rparr>
         = Inl RangeError)"
  by (simp add: loadBOBJ_def readChunks_def one_byte_first_chunk)
    (simp add: header_def run_defs carryBytes_def)

end
